theory Spec2Isabelle
  imports Complex_Main "HOL-Library.Code_Target_Nat"
begin

section \<open>Strings and the regular expressions of the filters\<close>

text \<open>
  A JavaScript string is a sequence of UTF-16 code units, so it is modelled as a list of
  natural numbers; \<open>js\<close> turns an ASCII literal into that form.  \<open>Undefined\<close> and
  \<open>Null\<close> are the two absent values an optional argument can take.
\<close>

type_synonym jstring = "nat list"

definition js :: "string \<Rightarrow> jstring" where
  "js s = map of_char s"

datatype 'a nullable = Undefined | Null | Val 'a

text \<open>Truthiness of an optional string: absent values and the empty string are falsy.\<close>

fun truthy :: "jstring nullable \<Rightarrow> bool" where
  "truthy Undefined = False"
| "truthy Null = False"
| "truthy (Val s) = (s \<noteq> [])"

text \<open>
  The character classes of ECMAScript: line terminators, white space (what \<open>\s\<close>
  matches and \<open>trim\<close> strips) and the word characters that decide \<open>\b\<close>.
\<close>

definition is_line_terminator :: "nat \<Rightarrow> bool" where
  "is_line_terminator c = (c = 10 \<or> c = 13 \<or> c = 8232 \<or> c = 8233)"

definition is_ws :: "nat \<Rightarrow> bool" where
  "is_ws c = (c = 9 \<or> c = 10 \<or> c = 11 \<or> c = 12 \<or> c = 13 \<or> c = 32 \<or> c = 160 \<or> c = 5760
              \<or> (8192 \<le> c \<and> c \<le> 8202) \<or> c = 8232 \<or> c = 8233 \<or> c = 8239 \<or> c = 8287
              \<or> c = 12288 \<or> c = 65279)"

definition is_word :: "nat \<Rightarrow> bool" where
  "is_word c = ((48 \<le> c \<and> c \<le> 57) \<or> (65 \<le> c \<and> c \<le> 90) \<or> c = 95 \<or> (97 \<le> c \<and> c \<le> 122))"

text \<open>
  Case folding of the \<open>i\<close> flag: a code unit is compared by its upper-case form.  The
  letters of ASCII and Latin-1 are folded; the other code units are left as they are,
  which decides every comparison with a character written in the patterns below (ASCII
  and \<open>U+00E3\<close>), because no other code unit folds onto one of those.
\<close>

definition canonicalize :: "nat \<Rightarrow> nat" where
  "canonicalize c =
     (if (97 \<le> c \<and> c \<le> 122) \<or> (224 \<le> c \<and> c \<le> 254 \<and> c \<noteq> 247) then c - 32 else c)"

definition trim :: "jstring \<Rightarrow> jstring" where
  "trim s = rev (dropWhile is_ws (rev (dropWhile is_ws s)))"

text \<open>
  The regular expressions the program writes use literals (kept as written, one
  \<open>char\<close> per code unit of the pattern; they are all below 256), \<open>.\<close>, \<open>\s*\<close>, \<open>\b\<close>,
  \<open>?\<close>, sequencing and alternation.  A position in the input is the code unit before
  it (if any) and the input that remains; \<open>ends r pos\<close> lists, in the order the
  backtracking matcher tries them, the positions at which a match of \<open>r\<close> begun at
  \<open>pos\<close> can end.
\<close>

datatype rx =
    Lit string
  | AnyChar
  | Spaces
  | Boundary
  | Optional rx
  | Seqs "rx list"
  | Alts "rx list"

type_synonym pos = "nat option \<times> jstring"

fun match_lit :: "string \<Rightarrow> nat option \<Rightarrow> jstring \<Rightarrow> pos option" where
  "match_lit [] p t = Some (p, t)"
| "match_lit (c # cs) p [] = None"
| "match_lit (c # cs) p (d # ds) =
     (if canonicalize d = canonicalize (of_char c) then match_lit cs (Some d) ds else None)"

fun spaces_ends :: "nat option \<Rightarrow> jstring \<Rightarrow> pos list" where
  "spaces_ends p [] = [(p, [])]"
| "spaces_ends p (d # ds) =
     (if is_ws d then spaces_ends (Some d) ds @ [(p, d # ds)] else [(p, d # ds)])"

definition is_boundary :: "nat option \<Rightarrow> jstring \<Rightarrow> bool" where
  "is_boundary p t =
     ((case p of None \<Rightarrow> False | Some c \<Rightarrow> is_word c)
      \<noteq> (case t of [] \<Rightarrow> False | d # ds \<Rightarrow> is_word d))"

fun ends :: "rx \<Rightarrow> pos \<Rightarrow> pos list" where
  "ends (Lit cs) (p, t) = (case match_lit cs p t of None \<Rightarrow> [] | Some e \<Rightarrow> [e])"
| "ends AnyChar (p, t) =
     (case t of [] \<Rightarrow> [] | d # ds \<Rightarrow> if is_line_terminator d then [] else [(Some d, ds)])"
| "ends Spaces (p, t) = spaces_ends p t"
| "ends Boundary (p, t) = (if is_boundary p t then [(p, t)] else [])"
| "ends (Optional r) e = ends r e @ [e]"
| "ends (Seqs []) e = [e]"
| "ends (Seqs (r # rs)) e = concat (map (ends (Seqs rs)) (ends r e))"
| "ends (Alts rs) e = concat (map (\<lambda>r. ends r e) rs)"

text \<open>\<open>RegExp.prototype.test\<close> without the \<open>g\<close> flag: a match may start anywhere.\<close>

fun search :: "rx \<Rightarrow> nat option \<Rightarrow> jstring \<Rightarrow> bool" where
  "search r p [] = (ends r (p, []) \<noteq> [])"
| "search r p (d # ds) = (if ends r (p, d # ds) \<noteq> [] then True else search r (Some d) ds)"

definition test :: "rx \<Rightarrow> jstring \<Rightarrow> bool" where
  "test r s = search r None s"

subsection \<open>The shared filters\<close>

definition EXCLUDED_TITLE_ALTERNATIVES :: "rx list" where
  "EXCLUDED_TITLE_ALTERNATIVES =
    [Lit ''intern'', Lit ''internship'', Lit ''junior'',
     Seqs [Lit ''jr'', Optional (Lit ''.'')], Seqs [Lit ''entry'', AnyChar, Lit ''level''],
     Lit ''graduate'', Lit ''trainee'']"

definition EXCLUDED_TITLE_PATTERNS :: rx where
  "EXCLUDED_TITLE_PATTERNS = Seqs [Boundary, Alts EXCLUDED_TITLE_ALTERNATIVES, Boundary]"

definition NON_US_ALTERNATIVES :: "rx list" where
  "NON_US_ALTERNATIVES =
    [Lit ''europe'', Lit ''european'', Lit ''emea'', Seqs [Lit ''eu'', Boundary],
     Seqs [Lit ''uk'', Boundary], Lit ''united kingdom'', Lit ''london'', Lit ''berlin'',
     Lit ''paris'', Lit ''amsterdam'', Lit ''lisbon'', Lit ''barcelona'', Lit ''spain'',
     Lit ''germany'', Lit ''france'', Lit ''netherlands'', Lit ''portugal'', Lit ''ireland'',
     Lit ''switzerland'', Lit ''poland'', Lit ''warsaw'', Lit ''czech'', Lit ''austria'',
     Lit ''italy'', Lit ''sweden'', Lit ''denmark'', Lit ''norway'', Lit ''finland'',
     Lit ''belgium'', Lit ''romania'', Lit ''hungary'', Lit ''croatia'', Lit ''serbia'',
     Lit ''greece'', Lit ''ukraine'', Lit ''russia'', Lit ''turkey'', Lit ''israel'',
     Lit ''tel aviv'', Lit ''dubai'', Lit ''uae'', Lit ''saudi'', Lit ''qatar'',
     Lit ''middle east'', Lit ''africa'', Lit ''nigeria'', Lit ''south africa'', Lit ''kenya'',
     Lit ''india'', Lit ''bangalore'', Lit ''mumbai'', Lit ''hyderabad'', Lit ''delhi'',
     Lit ''pakistan'', Lit ''bangladesh'', Lit ''china'', Lit ''beijing'', Lit ''shanghai'',
     Lit ''shenzhen'', Lit ''hong kong'', Lit ''japan'', Lit ''tokyo'', Lit ''korea'',
     Lit ''south korea'', Lit ''singapore'', Lit ''philippines'', Lit ''vietnam'',
     Lit ''thailand'', Lit ''indonesia'', Lit ''malaysia'', Lit ''taiwan'', Lit ''apac'',
     Lit ''asia'', Lit ''latin america'', Lit ''latam'', Lit ''brazil'',
     Lit (''s'' @ [CHR 0xE3] @ ''o paulo''), Lit ''sao paulo'', Lit ''mexico'',
     Lit ''argentina'', Lit ''colombia'', Lit ''chile'', Lit ''peru'', Lit ''canada'',
     Lit ''vancouver'', Lit ''toronto'', Lit ''montreal'', Lit ''ottawa'', Lit ''australia'',
     Lit ''sydney'', Lit ''melbourne'', Lit ''new zealand'']"

definition NON_US_PATTERNS :: rx where
  "NON_US_PATTERNS = Seqs [Boundary, Alts NON_US_ALTERNATIVES, Boundary]"

definition US_ALTERNATIVES :: "rx list" where
  "US_ALTERNATIVES =
    [Lit ''united states'', Lit ''usa'', Seqs [Lit ''us'', Boundary], Lit ''u.s.'',
     Lit ''new york'', Lit ''nyc'', Lit ''san francisco'', Lit ''los angeles'',
     Lit ''chicago'', Lit ''austin'', Lit ''miami'', Lit ''boston'', Lit ''seattle'',
     Lit ''denver'', Lit ''portland'', Lit ''atlanta'', Lit ''dallas'', Lit ''houston'',
     Lit ''philadelphia'', Lit ''phoenix'', Lit ''minneapolis'', Lit ''detroit'',
     Lit ''nashville'', Lit ''raleigh'', Lit ''charlotte'', Lit ''pittsburgh'',
     Lit ''salt lake'', Lit ''san diego'', Lit ''san jose'',
     Seqs [Lit ''washington'', Spaces, Lit ''d'', Optional (Lit ''.''), Lit ''c'',
           Optional (Lit ''.'')],
     Lit ''california'', Lit ''texas'', Lit ''florida'', Lit ''georgia'', Lit ''colorado'',
     Lit ''virginia'', Lit ''washington'', Lit ''oregon'', Lit ''north carolina'',
     Lit ''south carolina'', Lit ''illinois'', Lit ''massachusetts'', Lit ''pennsylvania'',
     Lit ''ohio'', Lit ''michigan'', Lit ''arizona'', Lit ''tennessee'', Lit ''maryland'',
     Lit ''minnesota'', Lit ''wisconsin'', Lit ''indiana'', Lit ''missouri'',
     Lit ''connecticut'', Lit ''iowa'', Lit ''utah'', Lit ''nevada'', Lit ''new jersey'',
     Lit ''new hampshire'', Lit ''alabama'', Lit ''kentucky'', Lit ''louisiana'',
     Lit ''oklahoma'', Lit ''arkansas'', Lit ''mississippi'', Lit ''hawaii'', Lit ''idaho'',
     Lit ''montana'', Lit ''nebraska'', Lit ''new mexico'', Lit ''rhode island'',
     Lit ''vermont'', Lit ''wyoming'', Lit ''maine'', Lit ''delaware'', Lit ''west virginia'',
     Lit ''south dakota'', Lit ''north dakota'', Lit ''alaska'',
     Seqs [Boundary, Lit ''ca'', Boundary], Seqs [Boundary, Lit ''ny'', Boundary],
     Seqs [Boundary, Lit ''nc'', Boundary], Seqs [Boundary, Lit ''fl'', Boundary],
     Seqs [Boundary, Lit ''tx'', Boundary], Seqs [Boundary, Lit ''wa'', Boundary],
     Seqs [Boundary, Lit ''co'', Boundary], Seqs [Boundary, Lit ''il'', Boundary],
     Seqs [Boundary, Lit ''ma'', Boundary]]"

definition US_PATTERNS :: rx where
  "US_PATTERNS = Seqs [Boundary, Alts US_ALTERNATIVES, Boundary]"

text \<open>The three patterns written inline in \<open>isLocationUSOrRemote\<close>.\<close>

definition OUTSIDE_US :: rx where
  "OUTSIDE_US = Seqs [Lit ''outside'', Spaces, Optional (Seqs [Lit ''of'', Spaces]),
                      Optional (Seqs [Lit ''the'', Spaces]), Lit ''us'']"

definition REMOTE_GLOBAL :: rx where
  "REMOTE_GLOBAL = Seqs [Boundary,
     Alts [Lit ''remote'', Lit ''global'', Lit ''worldwide'', Lit ''anywhere''], Boundary]"

definition NORTH_AMERICA :: rx where
  "NORTH_AMERICA = Seqs [Boundary, Lit ''north america'', Boundary]"

definition isLocationUSOrRemote :: "jstring nullable \<Rightarrow> jstring nullable \<Rightarrow> bool" where
  "isLocationUSOrRemote location locationType =
     (if locationType = Val (js ''REMOTE'') \<and> \<not> truthy location then True
      else if \<not> truthy location then True
      else case location of
        Val s \<Rightarrow>
          (let loc = trim s in
           if loc = [] then True
           else if test OUTSIDE_US loc then False
           else if test NON_US_PATTERNS loc then (if test US_PATTERNS loc then True else False)
           else if test US_PATTERNS loc then True
           else if test REMOTE_GLOBAL loc then True
           else if test NORTH_AMERICA loc then True
           else True)
      | _ \<Rightarrow> True)"

text \<open>The title filter every adapter applies: \<open>EXCLUDED_TITLE_PATTERNS.test(title)\<close>.\<close>

definition isExcludedTitle :: "jstring \<Rightarrow> bool" where
  "isExcludedTitle title = test EXCLUDED_TITLE_PATTERNS title"


subsection \<open>Vocabularies and their occurrences in a text\<close>

text \<open>
  What the filters are meant to recognise, stated on the text itself rather than through
  the matcher.  A vocabulary entry is a sequence of pattern characters: a written
  character, compared without regard to case, or a wildcard for any one character other
  than a line terminator.  The text carries an entry at index \<open>i\<close> when the entry fits
  there, and the entry occurs in the text when it fits somewhere.
\<close>

datatype pc = C char | AnyOne

fun pc_ok :: "pc \<Rightarrow> nat \<Rightarrow> bool" where
  "pc_ok (C c) d = (canonicalize d = canonicalize (of_char c))"
| "pc_ok AnyOne d = (\<not> is_line_terminator d)"

definition fits :: "pc list \<Rightarrow> jstring \<Rightarrow> nat \<Rightarrow> bool" where
  "fits w t i = (i + length w \<le> length t \<and> list_all2 pc_ok w (take (length w) (drop i t)))"

definition occurs :: "pc list \<Rightarrow> jstring \<Rightarrow> bool" where
  "occurs w t = list_ex (fits w t) [0..<Suc (length t)]"

text \<open>
  There are two readings of "as a whole word".  For a reader a word is a run of letters,
  so an entry stands as a whole word when no letter touches it on either side; the
  letters are those of the Latin script, ASCII and accented (Latin-1 and Latin
  Extended-A and B).  This is \<open>whole_word_at\<close>, and \<open>names\<close> says that some entry of a
  vocabulary occurs so.
\<close>

definition written_letter :: "nat \<Rightarrow> bool" where
  "written_letter c =
     ((65 \<le> c \<and> c \<le> 90) \<or> (97 \<le> c \<and> c \<le> 122) \<or> c = 170 \<or> c = 181 \<or> c = 186
      \<or> (192 \<le> c \<and> c \<le> 591 \<and> c \<noteq> 215 \<and> c \<noteq> 247))"

definition whole_word_at :: "pc list \<Rightarrow> jstring \<Rightarrow> nat \<Rightarrow> bool" where
  "whole_word_at w t i =
     (fits w t i
      \<and> (i = 0 \<or> \<not> written_letter (t ! (i - 1)))
      \<and> (i + length w = length t \<or> \<not> written_letter (t ! (i + length w))))"

definition contains_whole_word :: "pc list \<Rightarrow> jstring \<Rightarrow> bool" where
  "contains_whole_word w t = list_ex (whole_word_at w t) [0..<Suc (length t)]"

definition names :: "pc list list \<Rightarrow> jstring \<Rightarrow> bool" where
  "names vocabulary t = list_ex (\<lambda>w. contains_whole_word w t) vocabulary"

text \<open>
  The other reading is that of the \<open>\b\<close> the patterns are written with: an entry is
  delimited when no word character of the regular expression language
  (\<open>A-Z a-z 0-9 _\<close>) touches it on either side.  The two readings part on the
  underscore and the digits, which delimit a word for the reader but not for \<open>\b\<close>,
  and on the letters outside ASCII, which continue a word for the reader but delimit it
  for \<open>\b\<close>.  \<open>mentions\<close> says that some entry of a vocabulary occurs delimited.
\<close>

definition delimited_at :: "pc list \<Rightarrow> jstring \<Rightarrow> nat \<Rightarrow> bool" where
  "delimited_at w t i =
     (i + length w \<le> length t \<and> list_all2 pc_ok w (take (length w) (drop i t))
      \<and> (i = 0 \<or> \<not> is_word (t ! (i - 1)))
      \<and> (i + length w = length t \<or> \<not> is_word (t ! (i + length w))))"

definition contains_delimited :: "pc list \<Rightarrow> jstring \<Rightarrow> bool" where
  "contains_delimited w t = list_ex (delimited_at w t) [0..<Suc (length t)]"

definition mentions :: "pc list list \<Rightarrow> jstring \<Rightarrow> bool" where
  "mentions vocabulary t = list_ex (\<lambda>w. contains_delimited w t) vocabulary"

text \<open>
  The junior vocabulary.  The entry for \<open>entry-level\<close> has the wildcard where the pattern
  has \<open>.\<close>, and \<open>jr\<close> stands for the pattern's \<open>jr\<close> with its optional dot.
\<close>

definition JUNIOR_VOCABULARY :: "pc list list" where
  "JUNIOR_VOCABULARY =
    [map C ''intern'', map C ''internship'', map C ''junior'', map C ''jr'',
     map C ''entry'' @ AnyOne # map C ''level'', map C ''graduate'', map C ''trainee'']"

text \<open>
  The vocabularies of the location filter, as lists of terms.  The non-US vocabulary has
  the ninety-two regions, countries and cities of \<open>NON_US_PATTERNS\<close>.  The US vocabulary
  has the eighty-five plain terms of \<open>US_PATTERNS\<close>; its two other entries, \<open>u.s.\<close> and
  \<open>washington d.c.\<close> with its optional blanks and dots, are not plain terms and are
  referred to by the words they begin with.  A text that writes \<open>Washington D.C.\<close> with
  a blank mentions the plain term \<open>washington\<close>.
\<close>

definition terms :: "string list \<Rightarrow> pc list list" where
  "terms ws = map (map C) ws"

definition NON_US_TERMS :: "string list" where
  "NON_US_TERMS =
    [''europe'', ''european'', ''emea'', ''eu'', ''uk'', ''united kingdom'', ''london'',
     ''berlin'', ''paris'', ''amsterdam'', ''lisbon'', ''barcelona'', ''spain'',
     ''germany'', ''france'', ''netherlands'', ''portugal'', ''ireland'', ''switzerland'',
     ''poland'', ''warsaw'', ''czech'', ''austria'', ''italy'', ''sweden'', ''denmark'',
     ''norway'', ''finland'', ''belgium'', ''romania'', ''hungary'', ''croatia'',
     ''serbia'', ''greece'', ''ukraine'', ''russia'', ''turkey'', ''israel'', ''tel aviv'',
     ''dubai'', ''uae'', ''saudi'', ''qatar'', ''middle east'', ''africa'', ''nigeria'',
     ''south africa'', ''kenya'', ''india'', ''bangalore'', ''mumbai'', ''hyderabad'',
     ''delhi'', ''pakistan'', ''bangladesh'', ''china'', ''beijing'', ''shanghai'',
     ''shenzhen'', ''hong kong'', ''japan'', ''tokyo'', ''korea'', ''south korea'',
     ''singapore'', ''philippines'', ''vietnam'', ''thailand'', ''indonesia'',
     ''malaysia'', ''taiwan'', ''apac'', ''asia'', ''latin america'', ''latam'',
     ''brazil'', (''s'' @ [CHR 0xE3] @ ''o paulo''), ''sao paulo'', ''mexico'',
     ''argentina'', ''colombia'', ''chile'', ''peru'', ''canada'', ''vancouver'',
     ''toronto'', ''montreal'', ''ottawa'', ''australia'', ''sydney'', ''melbourne'',
     ''new zealand'']"

definition NON_US_VOCABULARY :: "pc list list" where
  "NON_US_VOCABULARY = terms NON_US_TERMS"

definition US_TERMS :: "string list" where
  "US_TERMS =
    [''united states'', ''usa'', ''us'', ''new york'', ''nyc'', ''san francisco'',
     ''los angeles'', ''chicago'', ''austin'', ''miami'', ''boston'', ''seattle'',
     ''denver'', ''portland'', ''atlanta'', ''dallas'', ''houston'', ''philadelphia'',
     ''phoenix'', ''minneapolis'', ''detroit'', ''nashville'', ''raleigh'', ''charlotte'',
     ''pittsburgh'', ''salt lake'', ''san diego'', ''san jose'', ''california'', ''texas'',
     ''florida'', ''georgia'', ''colorado'', ''virginia'', ''washington'', ''oregon'',
     ''north carolina'', ''south carolina'', ''illinois'', ''massachusetts'',
     ''pennsylvania'', ''ohio'', ''michigan'', ''arizona'', ''tennessee'', ''maryland'',
     ''minnesota'', ''wisconsin'', ''indiana'', ''missouri'', ''connecticut'', ''iowa'',
     ''utah'', ''nevada'', ''new jersey'', ''new hampshire'', ''alabama'', ''kentucky'',
     ''louisiana'', ''oklahoma'', ''arkansas'', ''mississippi'', ''hawaii'', ''idaho'',
     ''montana'', ''nebraska'', ''new mexico'', ''rhode island'', ''vermont'', ''wyoming'',
     ''maine'', ''delaware'', ''west virginia'', ''south dakota'', ''north dakota'',
     ''alaska'', ''ca'', ''ny'', ''nc'', ''fl'', ''tx'', ''wa'', ''co'', ''il'', ''ma'']"

definition US_VOCABULARY :: "pc list list" where
  "US_VOCABULARY = terms US_TERMS"

text \<open>Auxiliary notions for reasoning about the matcher by index into the input.\<close>

definition pos_at :: "jstring \<Rightarrow> nat \<Rightarrow> pos" where
  "pos_at t i = ((if i = 0 then None else Some (t ! (i - 1))), drop i t)"

definition boundary_at :: "jstring \<Rightarrow> nat \<Rightarrow> bool" where
  "boundary_at t i = is_boundary (fst (pos_at t i)) (snd (pos_at t i))"

definition letter :: "char \<Rightarrow> bool" where
  "letter c = ((65 \<le> (of_char c :: nat) \<and> (of_char c :: nat) \<le> 90)
               \<or> (97 \<le> (of_char c :: nat) \<and> (of_char c :: nat) \<le> 122))"

text \<open>
  An alternative of a pattern is plain when it is a literal, possibly with a \<open>\b\<close>
  after it or on both sides; \<open>plain_term\<close> gives the literal.
\<close>

fun plain_term :: "rx \<Rightarrow> string option" where
  "plain_term (Lit w) = Some w"
| "plain_term (Seqs [Lit w, Boundary]) = Some w"
| "plain_term (Seqs [Boundary, Lit w, Boundary]) = Some w"
| "plain_term r = None"

definition term_ok :: "string \<Rightarrow> bool" where
  "term_ok w = (w \<noteq> [] \<and> letter (hd w) \<and> letter (last w))"

text \<open>A pattern without \<open>\b\<close> matches whatever surrounds the text it matches.\<close>

fun boundary_free :: "rx \<Rightarrow> bool" where
  "boundary_free Boundary = False"
| "boundary_free (Optional r) = boundary_free r"
| "boundary_free (Seqs rs) = (\<forall>r\<in>set rs. boundary_free r)"
| "boundary_free (Alts rs) = (\<forall>r\<in>set rs. boundary_free r)"
| "boundary_free r = True"

section \<open>The store\<close>

text \<open>
  The persistence module keeps four tables.  A table is the list of its rows in insertion
  order and a row is a record whose fields are the SQL columns, prefixed \<open>c_\<close> (jobs),
  \<open>s_\<close> (job_scores), \<open>a_\<close> (job_actions) and \<open>r_\<close> (scrape_runs).  A column that may
  be NULL is an \<open>option\<close>.  The columns that hold JSON text (\<open>tags\<close>, \<open>chains\<close>,
  \<open>raw_data\<close>) are kept as the values they encode; \<open>None\<close> in \<open>c_raw_data\<close> is the
  empty object written when a job has no raw data.
\<close>

record 'r RawJob =
  sourceId :: jstring
  url :: "jstring option"
  title :: jstring
  company :: "jstring option"
  description :: "jstring option"
  location :: "jstring option"
  locationType :: "jstring option"
  seniority :: "jstring option"
  category :: "jstring option"
  salaryMin :: "int option"
  salaryMax :: "int option"
  tags :: "jstring list option"
  chains :: "jstring list option"
  postedAt :: "jstring option"
  rawData :: "'r option"

record 'r JobRow =
  c_id :: jstring
  c_source :: jstring
  c_source_id :: jstring
  c_url :: "jstring option"
  c_title :: jstring
  c_company :: "jstring option"
  c_description :: "jstring option"
  c_location :: "jstring option"
  c_location_type :: "jstring option"
  c_seniority :: "jstring option"
  c_category :: "jstring option"
  c_salary_min :: "int option"
  c_salary_max :: "int option"
  c_tags :: "jstring list"
  c_chains :: "jstring list"
  c_posted_at :: "jstring option"
  c_scraped_at :: jstring
  c_raw_data :: "'r option"

record ScoreRow =
  s_job_id :: jstring
  s_overall_score :: int
  s_relevance_score :: int
  s_experience_match :: int
  s_domain_match :: int
  s_seniority_fit :: int
  s_reasoning :: "jstring option"
  s_scored_at :: jstring
  s_model_used :: jstring

record ActionRow =
  a_job_id :: jstring
  a_action :: jstring
  a_notes :: "jstring option"
  a_created_at :: jstring

record RunRow =
  r_id :: nat
  r_source :: jstring
  r_started_at :: jstring
  r_completed_at :: "jstring option"
  r_status :: jstring
  r_jobs_found :: int
  r_jobs_new :: int
  r_error :: "jstring option"

text \<open>
  The program reads two things from outside that the store depends on: \<open>uuidv4()\<close> and
  \<open>new Date().toISOString()\<close>.  The environment record gives the value each call returns, by the
  number of calls made before it; the state counts the calls.  \<open>run_seq\<close> is the
  AUTOINCREMENT sequence of \<open>scrape_runs\<close>.  The record also holds the wording of the
  \<open>TypeError\<close> the engine raises when the runner calls something that cannot be called,
  by the name the runner looked up.
\<close>

record env =
  uuidv4 :: "nat \<Rightarrow> jstring"
  clock :: "nat \<Rightarrow> jstring"
  type_error :: "jstring \<Rightarrow> jstring"

record 'r state =
  jobs :: "'r JobRow list"
  job_scores :: "ScoreRow list"
  job_actions :: "ActionRow list"
  scrape_runs :: "RunRow list"
  run_seq :: nat
  uuid_calls :: nat
  clock_reads :: nat

text \<open>
  A thrown value: an \<open>Error\<close> object with its message, or any other value with the
  string \<open>String(value)\<close> gives.
\<close>

datatype exn = JsError jstring | NonError jstring

fun message_of :: "exn \<Rightarrow> jstring" where
  "message_of (JsError m) = m"
| "message_of (NonError s) = s"

record upsert_result =
  job_id :: jstring
  isNew :: bool

definition job_key :: "'r JobRow \<Rightarrow> jstring \<times> jstring" where
  "job_key r = (c_source r, c_source_id r)"

text \<open>The columns the UPDATE of \<open>upsertJob\<close> sets, and the row its INSERT writes.\<close>

definition set_columns :: "'r RawJob \<Rightarrow> jstring \<Rightarrow> 'r JobRow \<Rightarrow> 'r JobRow" where
  "set_columns job now r =
     r\<lparr>c_url := url job, c_title := title job, c_company := company job,
       c_description := description job, c_location := location job,
       c_location_type := locationType job, c_seniority := seniority job,
       c_category := category job, c_salary_min := salaryMin job,
       c_salary_max := salaryMax job,
       c_tags := (case tags job of None \<Rightarrow> [] | Some ts \<Rightarrow> ts),
       c_chains := (case chains job of None \<Rightarrow> [] | Some cs \<Rightarrow> cs),
       c_posted_at := postedAt job, c_scraped_at := now, c_raw_data := rawData job\<rparr>"

definition new_row :: "jstring \<Rightarrow> jstring \<Rightarrow> 'r RawJob \<Rightarrow> jstring \<Rightarrow> 'r JobRow" where
  "new_row uid source job now =
     \<lparr>c_id = uid, c_source = source, c_source_id = sourceId job, c_url = url job,
      c_title = title job, c_company = company job, c_description = description job,
      c_location = location job, c_location_type = locationType job,
      c_seniority = seniority job, c_category = category job,
      c_salary_min = salaryMin job, c_salary_max = salaryMax job,
      c_tags = (case tags job of None \<Rightarrow> [] | Some ts \<Rightarrow> ts),
      c_chains = (case chains job of None \<Rightarrow> [] | Some cs \<Rightarrow> cs),
      c_posted_at = postedAt job, c_scraped_at = now, c_raw_data = rawData job\<rparr>"

text \<open>
  \<open>upsertJob({source, ...raw})\<close>.  The id and the timestamp are drawn first, whichever
  branch follows.  The SELECT takes the first row with the key; the UPDATE rewrites every
  row with that row's id; the INSERT fails on the primary key when the drawn id is
  already in the table.
\<close>

definition upsertJob ::
  "env \<Rightarrow> 'r state \<Rightarrow> jstring \<Rightarrow> 'r RawJob \<Rightarrow> (exn + upsert_result) \<times> 'r state" where
  "upsertJob orc st source job =
     (let uid = uuidv4 orc (uuid_calls st);
          now = clock orc (clock_reads st);
          st1 = st\<lparr>uuid_calls := Suc (uuid_calls st), clock_reads := Suc (clock_reads st)\<rparr>
      in case find (\<lambda>r. c_source r = source \<and> c_source_id r = sourceId job) (jobs st1) of
           Some existing \<Rightarrow>
             (Inr \<lparr>job_id = c_id existing, isNew = False\<rparr>,
              st1\<lparr>jobs := map (\<lambda>r. if c_id r = c_id existing then set_columns job now r else r)
                               (jobs st1)\<rparr>)
         | None \<Rightarrow>
             if uid \<in> set (map c_id (jobs st1))
             then (Inl (JsError (js ''UNIQUE constraint failed: jobs.id'')), st1)
             else (Inr \<lparr>job_id = uid, isNew = True\<rparr>,
                   st1\<lparr>jobs := jobs st1 @ [new_row uid source job now]\<rparr>))"

text \<open>
  The states a store can be in: it starts with an empty \<open>jobs\<close> table, \<open>upsertJob\<close> is
  the only operation of the module that writes that table, and every other operation
  leaves it as it is.
\<close>

inductive reachable :: "env \<Rightarrow> 'r state \<Rightarrow> bool" for orc :: env where
  fresh: "jobs st = [] \<Longrightarrow> reachable orc st"
| upsert: "reachable orc st \<Longrightarrow> reachable orc (snd (upsertJob orc st source job))"
| other: "reachable orc st \<Longrightarrow> jobs st' = jobs st \<Longrightarrow> reachable orc st'"

text \<open>
  \<open>upsertScore\<close>.  Its numeric arguments are what \<open>Math.round\<close> returned: an integer,
  or NaN (\<open>None\<close>), which the driver binds as NULL.  The text argument is bound as text
  or NULL, or is a value the driver refuses to bind.  The statement is INSERT OR REPLACE
  by the primary key \<open>job_id\<close>; it fails on a NULL in one of the five NOT NULL score
  columns and on the foreign key to \<open>jobs(id)\<close>.  The timestamp is read while the
  arguments are built, before anything can fail.
\<close>

datatype bound_text = Text jstring | SqlNull | Unbindable

record score_args =
  jobId :: jstring
  overallScore :: "int option"
  relevanceScore :: "int option"
  experienceMatch :: "int option"
  domainMatch :: "int option"
  seniorityFit :: "int option"
  reasoning' :: bound_text
  modelUsed :: jstring

definition upsertScore :: "env \<Rightarrow> 'r state \<Rightarrow> score_args \<Rightarrow> (exn + unit) \<times> 'r state" where
  "upsertScore orc st score =
     (let now = clock orc (clock_reads st);
          st1 = st\<lparr>clock_reads := Suc (clock_reads st)\<rparr>
      in if reasoning' score = Unbindable
         then (Inl (JsError (js ''SQLite3 can only bind numbers, strings, bigints, buffers, and null'')),
               st1)
         else
           (case (overallScore score, relevanceScore score, experienceMatch score,
                  domainMatch score, seniorityFit score) of
              (Some ov, Some rl, Some ex, Some dm, Some sn) \<Rightarrow>
                if jobId score \<notin> set (map c_id (jobs st1))
                then (Inl (JsError (js ''FOREIGN KEY constraint failed'')), st1)
                else (Inr (),
                      st1\<lparr>job_scores :=
                            filter (\<lambda>s. s_job_id s \<noteq> jobId score) (job_scores st1)
                            @ [\<lparr>s_job_id = jobId score, s_overall_score = ov,
                                s_relevance_score = rl, s_experience_match = ex,
                                s_domain_match = dm, s_seniority_fit = sn,
                                s_reasoning = (case reasoning' score of
                                                 Text t \<Rightarrow> Some t | _ \<Rightarrow> None),
                                s_scored_at = now, s_model_used = modelUsed score\<rparr>]\<rparr>)
            | _ \<Rightarrow> (Inl (JsError (js ''NOT NULL constraint failed'')), st1)))"

text \<open>\<open>getUnscoredJobs\<close>: a negative LIMIT is no limit at all.\<close>

definition sql_limit :: "int \<Rightarrow> 'a list \<Rightarrow> 'a list" where
  "sql_limit n xs = (if n < 0 then xs else take (nat n) xs)"

definition getUnscoredJobs :: "'r state \<Rightarrow> int \<Rightarrow> 'r JobRow list" where
  "getUnscoredJobs st limit =
     sql_limit limit (filter (\<lambda>j. c_id j \<notin> set (map s_job_id (job_scores st))) (jobs st))"

definition startScrapeRun :: "env \<Rightarrow> 'r state \<Rightarrow> jstring \<Rightarrow> nat \<times> 'r state" where
  "startScrapeRun orc st source =
     (let now = clock orc (clock_reads st);
          rid = Suc (Max (insert (run_seq st) (set (map r_id (scrape_runs st)))))
      in (rid,
          st\<lparr>clock_reads := Suc (clock_reads st), run_seq := rid,
             scrape_runs := scrape_runs st @
               [\<lparr>r_id = rid, r_source = source, r_started_at = now, r_completed_at = None,
                 r_status = js ''running'', r_jobs_found = 0, r_jobs_new = 0,
                 r_error = None\<rparr>]\<rparr>))"

definition completeScrapeRun ::
  "env \<Rightarrow> 'r state \<Rightarrow> nat \<Rightarrow> jstring \<Rightarrow> int \<Rightarrow> int \<Rightarrow> jstring option \<Rightarrow> 'r state" where
  "completeScrapeRun orc st rid status jobsFound jobsNew error =
     (let now = clock orc (clock_reads st)
      in st\<lparr>clock_reads := Suc (clock_reads st),
            scrape_runs := map (\<lambda>r. if r_id r = rid
                                     then r\<lparr>r_completed_at := Some now, r_status := status,
                                            r_jobs_found := jobsFound, r_jobs_new := jobsNew,
                                            r_error := error\<rparr>
                                     else r) (scrape_runs st)\<rparr>)"

text \<open>A small concrete store and environment, used to run the operations on examples.\<close>

definition demo_env :: env where
  "demo_env = \<lparr>uuidv4 = (\<lambda>n. js ''id-'' @ [48 + n]), clock = (\<lambda>n. js ''t'' @ [48 + n]),
                type_error = (\<lambda>s. js ''TypeError for '' @ s)\<rparr>"

definition empty_store :: "unit state" where
  "empty_store = \<lparr>jobs = [], job_scores = [], job_actions = [], scrape_runs = [],
                   run_seq = 0, uuid_calls = 0, clock_reads = 0\<rparr>"

definition demo_job :: "jstring \<Rightarrow> jstring \<Rightarrow> jstring option \<Rightarrow> unit RawJob" where
  "demo_job sid ttl loc =
     \<lparr>sourceId = sid, url = None, title = ttl, company = Some (js ''Acme''),
      description = None, location = loc, locationType = None, seniority = None,
      category = None, salaryMin = None, salaryMax = None, tags = Some [js ''defi''],
      chains = None, postedAt = None, rawData = None\<rparr>"

definition demo_store_one :: "unit state" where
  "demo_store_one =
     empty_store\<lparr>jobs := [new_row (js ''id-0'') (js ''jobstash'')
                             (demo_job (js ''42'') (js ''PM'') None) (js ''t0'')],
                 uuid_calls := 1, clock_reads := 1\<rparr>"

section \<open>The scrape runner\<close>

text \<open>
  What an adapter's \<open>scrape()\<close> does during a run is taken as given: it returns raw jobs
  or it throws.  The registry holds four adapters; \<open>Object.keys\<close> lists them in the
  order they are written.

  The registry is an object literal, so \<open>adapters[source]\<close> also finds the twelve names
  every object inherits from \<open>Object.prototype\<close>, and all twelve values are truthy.
  Called as \<open>factory()\<close>, with no \<open>this\<close> and no argument, \<open>constructor\<close> returns a
  new empty object, \<open>toString\<close> a string and \<open>isPrototypeOf\<close> the value \<open>false\<close>:
  the runner goes on with a value that has no \<open>scrape\<close> method.  The value under
  \<open>__proto__\<close> is not a function, and the eight other methods need the \<open>this\<close>
  they are called without: for these nine names \<open>factory()\<close> raises a \<open>TypeError\<close>.
\<close>

datatype 'r scrape_outcome = Returns "'r RawJob list" | Throws exn

record run_result =
  jobsFound :: int
  jobsNew :: int

definition adapters :: "jstring list" where
  "adapters = [js ''jobstash'', js ''safary'', js ''web3career'', js ''cryptojobslist'']"

definition INHERITED_RETURNING :: "jstring list" where
  "INHERITED_RETURNING = [js ''constructor'', js ''toString'', js ''isPrototypeOf'']"

definition INHERITED_THROWING :: "jstring list" where
  "INHERITED_THROWING =
    [js ''__proto__'', js ''valueOf'', js ''toLocaleString'', js ''hasOwnProperty'',
     js ''propertyIsEnumerable'', js ''__defineGetter__'', js ''__defineSetter__'',
     js ''__lookupGetter__'', js ''__lookupSetter__'']"

fun join :: "jstring \<Rightarrow> jstring list \<Rightarrow> jstring" where
  "join sep [] = []"
| "join sep [x] = x"
| "join sep (x # y # ys) = x @ sep @ join sep (y # ys)"

text \<open>The loop of \<open>runScraper\<close> over the raw jobs; an exception of \<open>upsertJob\<close> ends it.\<close>

fun upsert_all ::
  "env \<Rightarrow> 'r state \<Rightarrow> jstring \<Rightarrow> 'r RawJob list \<Rightarrow> int \<Rightarrow> (exn + int) \<times> 'r state" where
  "upsert_all orc st source [] n = (Inr n, st)"
| "upsert_all orc st source (raw # rest) n =
     (case upsertJob orc st source raw of
        (Inl e, st1) \<Rightarrow> (Inl e, st1)
      | (Inr result, st1) \<Rightarrow> upsert_all orc st1 source rest (if isNew result then n + 1 else n))"

text \<open>
  \<open>runScraper\<close>.  A name that the registry does not hold, own or inherited, is an unknown
  source.  For an inherited name whose call raises, the error leaves \<open>runScraper\<close> before
  a run is opened.  For an inherited name whose call returns, the run is opened and
  \<open>adapter.scrape()\<close> raises a \<open>TypeError\<close> inside the \<open>try\<close>, which closes the
  run as failed.
\<close>

definition runScraper ::
  "env \<Rightarrow> (jstring \<Rightarrow> 'r scrape_outcome) \<Rightarrow> 'r state \<Rightarrow> jstring
   \<Rightarrow> (exn + run_result) \<times> 'r state" where
  "runScraper orc scrape st source =
     (if source \<in> set adapters
      then
        (case startScrapeRun orc st source of (runId, st1) \<Rightarrow>
          (case scrape source of
             Throws e \<Rightarrow>
               (Inl e, completeScrapeRun orc st1 runId (js ''failed'') 0 0 (Some (message_of e)))
           | Returns rawJobs \<Rightarrow>
               (case upsert_all orc st1 source rawJobs 0 of
                  (Inl e, st2) \<Rightarrow>
                    (Inl e,
                     completeScrapeRun orc st2 runId (js ''failed'') 0 0 (Some (message_of e)))
                | (Inr n, st2) \<Rightarrow>
                    (Inr \<lparr>jobsFound = int (length rawJobs), jobsNew = n\<rparr>,
                     completeScrapeRun orc st2 runId (js ''completed'')
                       (int (length rawJobs)) n None))))
      else if source \<in> set INHERITED_THROWING
      then (Inl (JsError (type_error orc source)), st)
      else if source \<in> set INHERITED_RETURNING
      then
        (case startScrapeRun orc st source of (runId, st1) \<Rightarrow>
          (Inl (JsError (type_error orc source)),
           completeScrapeRun orc st1 runId (js ''failed'') 0 0
             (Some (message_of (JsError (type_error orc source))))))
      else (Inl (JsError (js ''Unknown source: '' @ source @ js ''. Available: ''
                          @ join (js '', '') adapters)), st))"

text \<open>
  \<open>runAllScrapers\<close>: the loop over the registry's keys, with the result object as a map
  from source name to counts.
\<close>

fun run_sources ::
  "env \<Rightarrow> (jstring \<Rightarrow> 'r scrape_outcome) \<Rightarrow> 'r state \<Rightarrow> jstring list
   \<Rightarrow> (jstring \<rightharpoonup> run_result) \<Rightarrow> (jstring \<rightharpoonup> run_result) \<times> 'r state" where
  "run_sources orc scrape st [] results = (results, st)"
| "run_sources orc scrape st (source # rest) results =
     (case runScraper orc scrape st source of
        (Inr r, st1) \<Rightarrow> run_sources orc scrape st1 rest (results(source \<mapsto> r))
      | (Inl e, st1) \<Rightarrow>
          run_sources orc scrape st1 rest (results(source \<mapsto> \<lparr>jobsFound = 0, jobsNew = 0\<rparr>)))"

definition runAllScrapers ::
  "env \<Rightarrow> (jstring \<Rightarrow> 'r scrape_outcome) \<Rightarrow> 'r state
   \<Rightarrow> (jstring \<rightharpoonup> run_result) \<times> 'r state" where
  "runAllScrapers orc scrape st = run_sources orc scrape st adapters Map.empty"

text \<open>
  For stating what the runner leaves in \<open>scrape_runs\<close>: the id the next run gets, the row
  a finished call of \<open>runScraper\<close> leaves for it, and the entry \<open>runAllScrapers\<close> records.
\<close>

definition next_run_id :: "'r state \<Rightarrow> nat" where
  "next_run_id st = Suc (Max (insert (run_seq st) (set (map r_id (scrape_runs st)))))"

definition closed_run ::
  "nat \<Rightarrow> jstring \<Rightarrow> jstring \<Rightarrow> jstring \<Rightarrow> exn + run_result \<Rightarrow> RunRow" where
  "closed_run rid source started finished res =
     (case res of
        Inr r \<Rightarrow> \<lparr>r_id = rid, r_source = source, r_started_at = started,
                  r_completed_at = Some finished, r_status = js ''completed'',
                  r_jobs_found = jobsFound r, r_jobs_new = jobsNew r, r_error = None\<rparr>
      | Inl e \<Rightarrow> \<lparr>r_id = rid, r_source = source, r_started_at = started,
                  r_completed_at = Some finished, r_status = js ''failed'',
                  r_jobs_found = 0, r_jobs_new = 0, r_error = Some (message_of e)\<rparr>)"

definition entry_of :: "exn + run_result \<Rightarrow> run_result" where
  "entry_of res = (case res of Inr r \<Rightarrow> r | Inl e \<Rightarrow> \<lparr>jobsFound = 0, jobsNew = 0\<rparr>)"

text \<open>An example run: the second adapter throws, the first finds one job.\<close>

definition demo_scrape :: "jstring \<Rightarrow> unit scrape_outcome" where
  "demo_scrape s =
     (if s = js ''jobstash'' then Returns [demo_job (js ''42'') (js ''PM'') None]
      else if s = js ''safary'' then Throws (JsError (js ''boom''))
      else Returns [])"

section \<open>The scoring pipeline\<close>

text \<open>
  The judge is outside the program.  One try of it ends in one of four ways: the request
  fails; the answer has no content; the content does not parse (or parses to \<open>null\<close>, whose
  fields cannot be read); or it parses to an object.  A field of that object is a JSON
  value read as a score: a number, or something else, kept with what conversion to a
  number makes of it (\<open>None\<close> for NaN).  Numbers are the rationals a finite double
  denotes; a literal that overflows to Infinity is outside the model.
\<close>

datatype jsv = Num rat | Other "rat option"

record reply =
  overall_score :: jsv
  relevance_score :: jsv
  experience_match :: jsv
  domain_match :: jsv
  seniority_fit :: jsv
  reasoning :: bound_text

datatype attempt = ApiError exn | EmptyContent | ParseError exn | Parsed reply

definition MODEL :: jstring where
  "MODEL = js ''gpt-4o-mini''"

text \<open>\<open>Math.round\<close>: the nearest integer, a tie going up; NaN stays NaN.\<close>

definition math_round :: "jsv \<Rightarrow> int option" where
  "math_round v =
     (case v of
        Num x \<Rightarrow> Some \<lfloor>x + 1 / 2\<rfloor>
      | Other None \<Rightarrow> None
      | Other (Some x) \<Rightarrow> Some \<lfloor>x + 1 / 2\<rfloor>)"

text \<open>
  The function handed to \<open>withRetry\<close> in \<open>scoreJob\<close>, applied to what one try of the
  judge gave: only an object whose \<open>overall_score\<close> is a number is returned.
\<close>

definition judge_once :: "attempt \<Rightarrow> exn + reply" where
  "judge_once a =
     (case a of
        ApiError e \<Rightarrow> Inl e
      | EmptyContent \<Rightarrow> Inl (JsError (js ''Empty response from LLM''))
      | ParseError e \<Rightarrow> Inl e
      | Parsed r \<Rightarrow>
          (case overall_score r of
             Num x \<Rightarrow> Inr r
           | Other v \<Rightarrow> Inl (JsError (js ''Invalid score format''))))"

text \<open>
  \<open>withRetry\<close>: \<open>fn k\<close> is the outcome of the call made at attempt \<open>k\<close>.  The waits
  between attempts only take time.  With no attempt made, \<open>undefined\<close> is thrown.
\<close>

function withRetry_loop :: "(nat \<Rightarrow> exn + 'a) \<Rightarrow> nat \<Rightarrow> nat \<Rightarrow> exn option \<Rightarrow> exn + 'a" where
  "withRetry_loop fn maxRetries attempt lastError =
     (if attempt < maxRetries
      then (case fn attempt of
              Inr v \<Rightarrow> Inr v
            | Inl e \<Rightarrow> withRetry_loop fn maxRetries (Suc attempt) (Some e))
      else Inl (case lastError of Some e \<Rightarrow> e | None \<Rightarrow> NonError (js ''undefined'')))"
  by pat_completeness auto
termination
  by (relation "measure (\<lambda>(fn, maxRetries, attempt, lastError). maxRetries - attempt)") auto

declare withRetry_loop.simps [simp del]

definition withRetry :: "(nat \<Rightarrow> exn + 'a) \<Rightarrow> nat \<Rightarrow> exn + 'a" where
  "withRetry fn maxRetries = withRetry_loop fn maxRetries 0 None"

text \<open>
  \<open>scoreJob\<close>, given the tries of the judge for this job.  The prompt it builds from the
  job is what the judge is shown; nothing else depends on it.
\<close>

definition scoreJob ::
  "env \<Rightarrow> (nat \<Rightarrow> attempt) \<Rightarrow> 'r state \<Rightarrow> 'r JobRow \<Rightarrow> (exn + unit) \<times> 'r state" where
  "scoreJob orc judge st job =
     (case withRetry (\<lambda>k. judge_once (judge k)) 3 of
        Inl e \<Rightarrow> (Inl e, st)
      | Inr result \<Rightarrow>
          upsertScore orc st
            \<lparr>jobId = c_id job,
             overallScore = math_round (overall_score result),
             relevanceScore = math_round (relevance_score result),
             experienceMatch = math_round (experience_match result),
             domainMatch = math_round (domain_match result),
             seniorityFit = math_round (seniority_fit result),
             reasoning' = reasoning result,
             modelUsed = MODEL\<rparr>)"

text \<open>
  \<open>scoreUnscored\<close>: \<open>judge k\<close> gives the tries for the job at position \<open>k\<close> of the
  batch.  A job that fails is logged and the loop goes on.
\<close>

fun score_all ::
  "env \<Rightarrow> (nat \<Rightarrow> nat \<Rightarrow> attempt) \<Rightarrow> 'r state \<Rightarrow> 'r JobRow list \<Rightarrow> nat \<Rightarrow> nat
   \<Rightarrow> nat \<times> 'r state" where
  "score_all orc judge st [] k scored = (scored, st)"
| "score_all orc judge st (job # rest) k scored =
     (case scoreJob orc (judge k) st job of
        (Inr u, st1) \<Rightarrow> score_all orc judge st1 rest (Suc k) (Suc scored)
      | (Inl e, st1) \<Rightarrow> score_all orc judge st1 rest (Suc k) scored)"

definition scoreUnscored ::
  "env \<Rightarrow> jstring nullable \<Rightarrow> (nat \<Rightarrow> nat \<Rightarrow> attempt) \<Rightarrow> 'r state \<Rightarrow> int
   \<Rightarrow> (exn + nat) \<times> 'r state" where
  "scoreUnscored orc apiKey judge st limit =
     (if \<not> truthy apiKey then (Inl (JsError (js ''OPENAI_API_KEY not set'')), st)
      else (case score_all orc judge st (getUnscoredJobs st limit) 0 0 of
              (scored, st1) \<Rightarrow> (Inr scored, st1)))"

text \<open>
  For stating what a batch does: the judge's tries for a job are exhausted when all three
  fail; a job is scored when a try is accepted and the accepted reply can be stored.
\<close>

definition exhausted :: "(nat \<Rightarrow> attempt) \<Rightarrow> bool" where
  "exhausted judge = list_all (\<lambda>k. isl (judge_once (judge k))) [0..<3]"

definition storable :: "reply \<Rightarrow> bool" where
  "storable r =
     (math_round (overall_score r) \<noteq> None \<and> math_round (relevance_score r) \<noteq> None
      \<and> math_round (experience_match r) \<noteq> None \<and> math_round (domain_match r) \<noteq> None
      \<and> math_round (seniority_fit r) \<noteq> None \<and> reasoning r \<noteq> Unbindable)"

definition scored_ok :: "(nat \<Rightarrow> attempt) \<Rightarrow> bool" where
  "scored_ok judge =
     (case withRetry (\<lambda>k. judge_once (judge k)) 3 of Inl e \<Rightarrow> False | Inr r \<Rightarrow> storable r)"

text \<open>
  An example batch: three stored jobs; the judge fails every try for the first job, and
  for the others answers with nothing at first and then with a reply whose overall score
  is not the weighted combination of its parts.
\<close>

definition demo_store_three :: "unit state" where
  "demo_store_three =
     empty_store\<lparr>jobs := [new_row (js ''id-0'') (js ''jobstash'')
                             (demo_job (js ''40'') (js ''PM'') None) (js ''t0''),
                          new_row (js ''id-1'') (js ''jobstash'')
                             (demo_job (js ''41'') (js ''BD Lead'') None) (js ''t1''),
                          new_row (js ''id-2'') (js ''safary'')
                             (demo_job (js ''42'') (js ''TPM'') None) (js ''t2'')],
                 uuid_calls := 3, clock_reads := 3\<rparr>"

definition demo_reply :: reply where
  "demo_reply =
     \<lparr>overall_score = Num (181 / 2), relevance_score = Num 10, experience_match = Num (41 / 4),
      domain_match = Num 10, seniority_fit = Num (19 / 2), reasoning = Text (js ''ok'')\<rparr>"

definition demo_judge :: "nat \<Rightarrow> nat \<Rightarrow> attempt" where
  "demo_judge k a =
     (if k = 0 then ApiError (JsError (js ''rate limit''))
      else if a = 0 then EmptyContent else Parsed demo_reply)"

section \<open>The JobStash adapter\<close>

text \<open>
  A job as the JobStash API returns it; the fields carry the API's names, prefixed
  \<open>api_\<close>.  \<open>api_organization_name\<close> is \<open>organization?.name\<close>.  A page request has one
  of three outcomes: \<open>fetch\<close> (or reading the body) throws, the response is not ok, or
  the body holds a list of jobs.
\<close>

record JobStashJob =
  api_shortUUID :: "jstring option"
  api_id :: "jstring option"
  api_title :: jstring
  api_url :: "jstring option"
  api_organization_name :: "jstring option"
  api_summary :: "jstring option"
  api_description :: "jstring option"
  api_location :: "jstring option"
  api_locationType :: "jstring option"
  api_seniority :: "jstring option"
  api_classification :: "jstring option"
  api_minimumSalary :: "int option"
  api_maximumSalary :: "int option"
  api_tags :: "jstring list option"
  api_chains :: "jstring list option"
  api_timestamp :: "int option"

datatype fetch_result = Failed exn | NotOk nat | Page "JobStashJob list"

record counters =
  skippedSeniority :: nat
  skippedTitle :: nat
  skippedLocation :: nat

definition PAGE_LIMIT :: nat where
  "PAGE_LIMIT = 20"

definition MAX_PAGES :: nat where
  "MAX_PAGES = 100"

definition MIN_SENIORITY :: int where
  "MIN_SENIORITY = 2"

text \<open>
  \<open>parseInt(s, 10)\<close>: leading white space is skipped, a sign is read, then the longest
  run of decimal digits; with no digit the result is NaN (\<open>None\<close>).  The value is kept
  exact: the rounding of a very long digit string to a double does not change how it
  compares with the threshold.
\<close>

definition is_digit :: "nat \<Rightarrow> bool" where
  "is_digit c = (48 \<le> c \<and> c \<le> 57)"

definition digits_value :: "jstring \<Rightarrow> int" where
  "digits_value ds = foldl (\<lambda>a d. 10 * a + (int d - 48)) 0 ds"

definition parseInt10 :: "jstring \<Rightarrow> int option" where
  "parseInt10 s =
     (let s1 = dropWhile is_ws s;
          neg = (case s1 of [] \<Rightarrow> False | c # r \<Rightarrow> c = 45);
          s2 = (case s1 of [] \<Rightarrow> [] | c # r \<Rightarrow> if c = 45 \<or> c = 43 then r else s1);
          ds = takeWhile is_digit s2
      in if ds = [] then None
         else Some (if neg then - digits_value ds else digits_value ds))"

text \<open>The three tests of the loop over a page's jobs, in the order the loop makes them.\<close>

definition below_seniority :: "JobStashJob \<Rightarrow> bool" where
  "below_seniority job =
     (case (case api_seniority job of
              None \<Rightarrow> None
            | Some s \<Rightarrow> if s = [] then None else Some (parseInt10 s)) of
        None \<Rightarrow> False
      | Some None \<Rightarrow> False
      | Some (Some n) \<Rightarrow> n < MIN_SENIORITY)"

definition nullable_of :: "'a option \<Rightarrow> 'a nullable" where
  "nullable_of x = (case x of None \<Rightarrow> Undefined | Some v \<Rightarrow> Val v)"

definition isLocationValid :: "JobStashJob \<Rightarrow> bool" where
  "isLocationValid job =
     isLocationUSOrRemote (nullable_of (api_location job)) (nullable_of (api_locationType job))"

text \<open>
  The raw job pushed for a job that passes.  \<open>toISO\<close> is \<open>new Date(t).toISOString()\<close>,
  which throws a RangeError (\<open>None\<close>) for a time outside the range of dates.
\<close>

definition or_else :: "jstring option \<Rightarrow> jstring option \<Rightarrow> jstring option" where
  "or_else a b = (case a of Some s \<Rightarrow> if s \<noteq> [] then Some s else b | None \<Rightarrow> b)"

definition source_id_of :: "JobStashJob \<Rightarrow> jstring" where
  "source_id_of job =
     (case or_else (api_shortUUID job) (api_id job) of
        Some s \<Rightarrow> if s \<noteq> [] then s
                  else api_title job @ js ''-''
                       @ (case api_organization_name job of None \<Rightarrow> js ''undefined'' | Some n \<Rightarrow> n)
      | None \<Rightarrow> api_title job @ js ''-''
                 @ (case api_organization_name job of None \<Rightarrow> js ''undefined'' | Some n \<Rightarrow> n))"

definition to_raw :: "(int \<Rightarrow> jstring option) \<Rightarrow> JobStashJob \<Rightarrow> exn + JobStashJob RawJob" where
  "to_raw toISO job =
     (case (case api_timestamp job of
              None \<Rightarrow> Some None
            | Some t \<Rightarrow> if t = 0 then Some None
                        else (case toISO t of None \<Rightarrow> None | Some d \<Rightarrow> Some (Some d))) of
        None \<Rightarrow> Inl (JsError (js ''Invalid time value''))
      | Some posted \<Rightarrow>
          Inr \<lparr>sourceId = source_id_of job, url = api_url job, title = api_title job,
               company = api_organization_name job,
               description = or_else (api_summary job) (api_description job),
               location = api_location job, locationType = api_locationType job,
               seniority = api_seniority job, category = api_classification job,
               salaryMin = api_minimumSalary job, salaryMax = api_maximumSalary job,
               tags = Some (case api_tags job of None \<Rightarrow> [] | Some ts \<Rightarrow> ts),
               chains = Some (case api_chains job of None \<Rightarrow> [] | Some cs \<Rightarrow> cs),
               postedAt = posted, rawData = Some job\<rparr>)"

text \<open>
  The loop over the jobs of one page.  The kept jobs and the three counters are carried
  along; the counters are what the adapter's last log line reports.
\<close>

fun process_page ::
  "(int \<Rightarrow> jstring option) \<Rightarrow> JobStashJob list \<Rightarrow> JobStashJob RawJob list \<times> counters
   \<Rightarrow> exn + JobStashJob RawJob list \<times> counters" where
  "process_page toISO [] acc = Inr acc"
| "process_page toISO (job # rest) (allJobs, cnt) =
     (if below_seniority job
      then process_page toISO rest (allJobs, cnt\<lparr>skippedSeniority := Suc (skippedSeniority cnt)\<rparr>)
      else if isExcludedTitle (api_title job)
      then process_page toISO rest (allJobs, cnt\<lparr>skippedTitle := Suc (skippedTitle cnt)\<rparr>)
      else if \<not> isLocationValid job
      then process_page toISO rest (allJobs, cnt\<lparr>skippedLocation := Suc (skippedLocation cnt)\<rparr>)
      else (case to_raw toISO job of
              Inl e \<Rightarrow> Inl e
            | Inr raw \<Rightarrow> process_page toISO rest (allJobs @ [raw], cnt)))"

text \<open>The loop over the pages, from page 1, and the adapter's \<open>scrape\<close>.\<close>

function scrape_pages ::
  "(nat \<Rightarrow> fetch_result) \<Rightarrow> (int \<Rightarrow> jstring option) \<Rightarrow> nat
   \<Rightarrow> JobStashJob RawJob list \<times> counters \<Rightarrow> exn + JobStashJob RawJob list \<times> counters" where
  "scrape_pages fetch toISO page acc =
     (if page \<le> MAX_PAGES
      then (case fetch page of
              Failed e \<Rightarrow> Inl e
            | NotOk status \<Rightarrow> Inr acc
            | Page items \<Rightarrow>
                if items = [] then Inr acc
                else (case process_page toISO items acc of
                        Inl e \<Rightarrow> Inl e
                      | Inr acc' \<Rightarrow>
                          if length items < PAGE_LIMIT then Inr acc'
                          else scrape_pages fetch toISO (Suc page) acc'))
      else Inr acc)"
  by pat_completeness auto
termination
  by (relation "measure (\<lambda>(fetch, toISO, page, acc). Suc MAX_PAGES - page)") auto

declare scrape_pages.simps [simp del]

definition JobStashAdapter_scrape ::
  "(nat \<Rightarrow> fetch_result) \<Rightarrow> (int \<Rightarrow> jstring option)
   \<Rightarrow> exn + JobStashJob RawJob list \<times> counters" where
  "JobStashAdapter_scrape fetch toISO =
     scrape_pages fetch toISO 1 ([], \<lparr>skippedSeniority = 0, skippedTitle = 0, skippedLocation = 0\<rparr>)"

text \<open>The jobs the page loop reads, page after page, for stating what it does with them.\<close>

function fetched_from :: "(nat \<Rightarrow> fetch_result) \<Rightarrow> nat \<Rightarrow> JobStashJob list" where
  "fetched_from fetch page =
     (if page \<le> MAX_PAGES
      then (case fetch page of
              Failed e \<Rightarrow> []
            | NotOk status \<Rightarrow> []
            | Page items \<Rightarrow>
                if items = [] \<or> length items < PAGE_LIMIT then items
                else items @ fetched_from fetch (Suc page))
      else [])"
  by pat_completeness auto
termination
  by (relation "measure (\<lambda>(fetch, page). Suc MAX_PAGES - page)") auto

declare fetched_from.simps [simp del]

definition passes :: "JobStashJob \<Rightarrow> bool" where
  "passes job =
     (\<not> below_seniority job \<and> \<not> isExcludedTitle (api_title job) \<and> isLocationValid job)"

text \<open>The scenario of five jobs on one page, one of them with seniority code 1.\<close>

definition demo_api_job :: "jstring \<Rightarrow> jstring \<Rightarrow> jstring option \<Rightarrow> jstring option \<Rightarrow> JobStashJob" where
  "demo_api_job uid ttl loc sen =
     \<lparr>api_shortUUID = Some uid, api_id = None, api_title = ttl, api_url = None,
      api_organization_name = Some (js ''Acme''), api_summary = None, api_description = None,
      api_location = loc, api_locationType = None, api_seniority = sen,
      api_classification = Some (js ''product''), api_minimumSalary = None,
      api_maximumSalary = None, api_tags = None, api_chains = None, api_timestamp = None\<rparr>"

definition demo_page :: "JobStashJob list" where
  "demo_page =
     [demo_api_job (js ''a'') (js ''Senior Product Manager'') (Some (js ''Remote'')) (Some (js ''3'')),
      demo_api_job (js ''b'') (js ''Junior Analyst'') (Some (js ''London'')) (Some (js ''1'')),
      demo_api_job (js ''c'') (js ''Growth Intern'') (Some (js ''New York'')) (Some (js ''2'')),
      demo_api_job (js ''d'') (js ''BD Lead'') (Some (js ''Berlin'')) None,
      demo_api_job (js ''e'') (js ''Head of Partnerships'') None (Some (js ''5''))]"

definition demo_fetch :: "nat \<Rightarrow> fetch_result" where
  "demo_fetch page = (if page = 1 then Page demo_page else Page [])"

section \<open>The filters: properties\<close>

subsection \<open>The matcher, by index into the input\<close>

lemma pos_at_Suc: "i < length t \<Longrightarrow> pos_at t (Suc i) = (Some (t ! i), drop (Suc i) t)"
  by (simp add: pos_at_def)

lemma drop_as_Cons: "i < length t \<Longrightarrow> drop i t = t ! i # drop (Suc i) t"
  by (simp add: Cons_nth_drop_Suc)

lemma search_from:
  "i \<le> length t \<Longrightarrow>
   search r (fst (pos_at t i)) (snd (pos_at t i)) = (\<exists>j. i \<le> j \<and> j \<le> length t \<and> ends r (pos_at t j) \<noteq> [])"
proof (induction "length t - i" arbitrary: i)
  case 0
  then have i: "i = length t" by simp
  have "snd (pos_at t i) = []" using i by (simp add: pos_at_def)
  then have "search r (fst (pos_at t i)) (snd (pos_at t i)) = (ends r (pos_at t i) \<noteq> [])"
    by (metis prod.collapse search.simps(1))
  also have "\<dots> = (\<exists>j. i \<le> j \<and> j \<le> length t \<and> ends r (pos_at t j) \<noteq> [])"
    using i by (metis le_antisym order_refl)
  finally show ?case .
next
  case (Suc n)
  then have lt: "i < length t" by simp
  have snd: "snd (pos_at t i) = t ! i # drop (Suc i) t"
    using lt by (simp add: pos_at_def drop_as_Cons)
  have "search r (fst (pos_at t i)) (snd (pos_at t i))
        = (ends r (pos_at t i) \<noteq> [] \<or> search r (Some (t ! i)) (drop (Suc i) t))"
    unfolding snd search.simps using snd by (metis prod.collapse)
  also have "search r (Some (t ! i)) (drop (Suc i) t)
        = search r (fst (pos_at t (Suc i))) (snd (pos_at t (Suc i)))"
    using lt by (simp add: pos_at_Suc)
  also have "\<dots> = (\<exists>j. Suc i \<le> j \<and> j \<le> length t \<and> ends r (pos_at t j) \<noteq> [])"
    using Suc.hyps(1)[of "Suc i"] Suc.hyps(2) lt by simp
  finally show ?case
    by (metis Suc_leD Suc_leI le_neq_implies_less lt less_or_eq_imp_le)
qed

lemma test_iff: "test r t = (\<exists>j\<le>length t. ends r (pos_at t j) \<noteq> [])"
  using search_from[of 0 t r] by (simp add: test_def pos_at_def)


lemma boundary_at_iff:
  "i \<le> length t \<Longrightarrow>
   boundary_at t i = ((i \<noteq> 0 \<and> is_word (t ! (i - 1))) \<noteq> (i < length t \<and> is_word (t ! i)))"
proof (cases "i < length t")
  case True
  then show ?thesis by (simp add: boundary_at_def is_boundary_def pos_at_def drop_as_Cons)
next
  case False
  assume "i \<le> length t"
  with False have "drop i t = []" by simp
  with False show ?thesis by (simp add: boundary_at_def is_boundary_def pos_at_def)
qed

lemma fits_Nil [simp]: "fits [] t i = (i \<le> length t)"
  by (simp add: fits_def)

lemma fits_Cons:
  "fits (x # w) t i = (i < length t \<and> pc_ok x (t ! i) \<and> fits w t (Suc i))"
proof (cases "i < length t")
  case True
  then show ?thesis by (auto simp: fits_def drop_as_Cons)
next
  case False
  then show ?thesis by (simp add: fits_def)
qed

lemma fits_le: "fits w t i \<Longrightarrow> i + length w \<le> length t"
  by (simp add: fits_def)

lemma fits_append: "fits (u @ v) t i = (fits u t i \<and> fits v t (i + length u))"
proof (induction u arbitrary: i)
  case Nil
  show ?case using fits_le[of v t i] by auto
next
  case (Cons x u)
  then show ?case by (auto simp: fits_Cons)
qed

lemma lit_ends:
  "i \<le> length t \<Longrightarrow>
   ends (Lit w) (pos_at t i) = (if fits (map C w) t i then [pos_at t (i + length w)] else [])"
proof (induction w arbitrary: i)
  case Nil
  then show ?case by (simp add: pos_at_def)
next
  case (Cons c cs)
  show ?case
  proof (cases "i < length t")
    case True
    have step: "ends (Lit (c # cs)) (pos_at t i)
          = (if canonicalize (t ! i) = canonicalize (of_char c)
             then ends (Lit cs) (pos_at t (Suc i)) else [])"
      using True by (simp add: pos_at_def drop_as_Cons)
    show ?thesis
      unfolding step using Cons.IH[of "Suc i"] True by (simp add: fits_Cons)
  next
    case False
    with Cons.prems have "drop i t = []" by simp
    then show ?thesis using False by (simp add: pos_at_def fits_Cons)
  qed
qed

lemma any_ends:
  "i \<le> length t \<Longrightarrow>
   ends AnyChar (pos_at t i) = (if fits [AnyOne] t i then [pos_at t (Suc i)] else [])"
proof (cases "i < length t")
  case True
  then show ?thesis by (simp add: pos_at_def drop_as_Cons fits_Cons)
next
  case False
  assume "i \<le> length t"
  with False have "drop i t = []" by simp
  then show ?thesis using False by (simp add: pos_at_def fits_Cons)
qed

lemma lit_any_lit_ends:
  assumes "i \<le> length t"
  shows "ends (Seqs [Lit a, AnyChar, Lit b]) (pos_at t i)
         = (if fits (map C a @ AnyOne # map C b) t i
            then [pos_at t (i + length (map C a @ AnyOne # map C b))] else [])"
proof (cases "fits (map C a) t i")
  case False
  then show ?thesis using assms by (simp add: lit_ends fits_append)
next
  case a: True
  then have la: "i + length a \<le> length t" using fits_le by fastforce
  show ?thesis
  proof (cases "fits [AnyOne] t (i + length a)")
    case False
    then show ?thesis using assms a la
      by (auto simp: lit_ends any_ends fits_append fits_Cons add.assoc)
  next
    case True
    then have lb: "Suc (i + length a) \<le> length t" by (simp add: fits_Cons)
    show ?thesis using assms a la lb True
      by (auto simp: lit_ends any_ends fits_append fits_Cons add.assoc)
  qed
qed


subsection \<open>Delimited occurrences and the title pattern\<close>

lemma pc_ok_letter: "letter c \<Longrightarrow> pc_ok (C c) d \<Longrightarrow> is_word d"
  unfolding letter_def is_word_def pc_ok.simps canonicalize_def
  by (simp split: if_splits; arith)

lemma fits_nth: "fits w t i \<Longrightarrow> k < length w \<Longrightarrow> pc_ok (w ! k) (t ! (i + k))"
proof -
  assume f: "fits w t i" and k: "k < length w"
  then have "pc_ok (w ! k) (take (length w) (drop i t) ! k)"
    by (auto simp: fits_def dest: list_all2_nthD)
  moreover have "take (length w) (drop i t) ! k = t ! (i + k)"
    using f k by (simp add: fits_def)
  ultimately show ?thesis by simp
qed

lemma delimited_at_alt:
  "delimited_at w t i = (fits w t i \<and> (i = 0 \<or> \<not> is_word (t ! (i - 1)))
      \<and> (i + length w = length t \<or> \<not> is_word (t ! (i + length w))))"
  by (simp add: delimited_at_def fits_def)

lemma word_edges:
  assumes f: "fits w t i" and ne: "w \<noteq> []"
    and a: "hd w = C a" "letter a" and b: "last w = C b" "letter b"
  shows "(boundary_at t i \<and> boundary_at t (i + length w)) = delimited_at w t i"
proof -
  have len: "i + length w \<le> length t" using f by (rule fits_le)
  have lw: "1 \<le> length w" using ne by (cases w) auto
  have "pc_ok (w ! 0) (t ! (i + 0))" by (rule fits_nth[OF f]) (use lw in linarith)
  then have first: "is_word (t ! i)" using a ne pc_ok_letter by (simp add: hd_conv_nth)
  have "pc_ok (w ! (length w - 1)) (t ! (i + (length w - 1)))"
    by (rule fits_nth[OF f]) (use lw in linarith)
  then have "is_word (t ! (i + (length w - 1)))"
    using b ne pc_ok_letter by (simp add: last_conv_nth)
  moreover have "i + (length w - 1) = i + length w - 1" using lw by linarith
  ultimately have last: "is_word (t ! (i + length w - 1))" by simp
  have i: "i < length t" "i \<le> length t" using len lw by linarith+
  show ?thesis
    unfolding delimited_at_alt boundary_at_iff[OF i(2)] boundary_at_iff[OF len(1)]
    using f first last i len lw by auto
qed

lemma ends_Boundary: "ends Boundary e = (if is_boundary (fst e) (snd e) then [e] else [])"
  by (cases e) simp

lemma seq_boundary_alts:
  "(ends (Seqs [Boundary, Alts as, Boundary]) e \<noteq> [])
   = (is_boundary (fst e) (snd e)
      \<and> (\<exists>a\<in>set as. \<exists>e'\<in>set (ends a e). is_boundary (fst e') (snd e')))"
  by (auto simp: ends_Boundary)

lemma lit_alt:
  assumes i: "i \<le> length t" and ne: "w \<noteq> []"
    and a: "letter (hd w)" and b: "letter (last w)"
  shows "(boundary_at t i \<and> (\<exists>e'\<in>set (ends (Lit w) (pos_at t i)). is_boundary (fst e') (snd e')))
         = delimited_at (map C w) t i"
proof (cases "fits (map C w) t i")
  case True
  have "(boundary_at t i \<and> boundary_at t (i + length (map C w))) = delimited_at (map C w) t i"
    using word_edges[OF True, of "hd w" "last w"] ne a b by (simp add: hd_map last_map)
  then show ?thesis using True i by (simp add: lit_ends boundary_at_def)
next
  case False
  then show ?thesis using i by (simp add: lit_ends delimited_at_alt)
qed

lemma lit_any_lit_alt:
  assumes i: "i \<le> length t" and ne: "u \<noteq> []" "v \<noteq> []"
    and a: "letter (hd u)" and b: "letter (last v)"
  shows "(boundary_at t i
          \<and> (\<exists>e'\<in>set (ends (Seqs [Lit u, AnyChar, Lit v]) (pos_at t i)). is_boundary (fst e') (snd e')))
         = delimited_at (map C u @ AnyOne # map C v) t i"
proof (cases "fits (map C u @ AnyOne # map C v) t i")
  case True
  have "(boundary_at t i \<and> boundary_at t (i + length (map C u @ AnyOne # map C v)))
        = delimited_at (map C u @ AnyOne # map C v) t i"
    using word_edges[OF True, of "hd u" "last v"] ne a b by (simp add: hd_map last_map hd_append)
  then show ?thesis using True i by (simp add: lit_any_lit_ends boundary_at_def del: ends.simps)
next
  case False
  then show ?thesis using i by (simp add: lit_any_lit_ends delimited_at_alt del: ends.simps)
qed


lemma dot_not_word: "pc_ok (C CHR ''.'') d \<Longrightarrow> \<not> is_word d"
  unfolding is_word_def pc_ok.simps canonicalize_def
  by (simp split: if_splits; arith)

lemma jr_alt:
  assumes i: "i \<le> length t"
  shows "(boundary_at t i
          \<and> (\<exists>e'\<in>set (ends (Seqs [Lit ''jr'', Optional (Lit ''.'')]) (pos_at t i)).
                is_boundary (fst e') (snd e')))
         = delimited_at (map C ''jr'') t i"
proof (cases "fits (map C ''jr'') t i")
  case False
  then show ?thesis using i by (simp add: lit_ends delimited_at_alt)
next
  case True
  then have len: "i + 2 \<le> length t" using fits_le by fastforce
  have r: "is_word (t ! (i + 1))"
    using fits_nth[OF True, of 1] pc_ok_letter[of "CHR ''r''" "t ! (i + 1)"]
    by (simp add: letter_def)
  have we: "(boundary_at t i \<and> boundary_at t (i + 2)) = delimited_at (map C ''jr'') t i"
    using word_edges[OF True, of "CHR ''j''" "CHR ''r''"] by (simp add: letter_def)
  have dot: "boundary_at t (i + 2)" if "fits [C CHR ''.''] t (i + 2)"
  proof -
    from that have lt: "i + 2 < length t" and ok: "pc_ok (C CHR ''.'') (t ! (i + 2))"
      unfolding fits_Cons by blast+
    have "\<not> is_word (t ! (i + 2))" by (rule dot_not_word[OF ok])
    then show ?thesis using r len lt by (simp add: boundary_at_iff)
  qed
  have e: "ends (Seqs [Lit ''jr'', Optional (Lit ''.'')]) (pos_at t i)
        = (if fits [C CHR ''.''] t (i + 2) then [pos_at t (i + 3)] else []) @ [pos_at t (i + 2)]"
    using True i len lit_ends[of "i + 2" t "''.''"] lit_ends[of i t "''jr''"]
    by (simp add: numeral_3_eq_3 numeral_2_eq_2)
  show ?thesis
    unfolding e using we dot by (auto simp: boundary_at_def)
qed

lemma title_at:
  assumes j: "j \<le> length t"
  shows "(ends EXCLUDED_TITLE_PATTERNS (pos_at t j) \<noteq> [])
         = (\<exists>w\<in>set JUNIOR_VOCABULARY. delimited_at w t j)"
proof -
  let ?B = "\<lambda>a. boundary_at t j \<and> (\<exists>e'\<in>set (ends a (pos_at t j)). is_boundary (fst e') (snd e'))"
  have a1: "?B (Lit ''intern'') = delimited_at (map C ''intern'') t j"
    by (rule lit_alt[OF j]) (simp_all add: letter_def)
  have a2: "?B (Lit ''internship'') = delimited_at (map C ''internship'') t j"
    by (rule lit_alt[OF j]) (simp_all add: letter_def)
  have a3: "?B (Lit ''junior'') = delimited_at (map C ''junior'') t j"
    by (rule lit_alt[OF j]) (simp_all add: letter_def)
  have a4: "?B (Seqs [Lit ''jr'', Optional (Lit ''.'')]) = delimited_at (map C ''jr'') t j"
    by (rule jr_alt[OF j])
  have a5: "?B (Seqs [Lit ''entry'', AnyChar, Lit ''level''])
            = delimited_at (map C ''entry'' @ AnyOne # map C ''level'') t j"
    by (rule lit_any_lit_alt[OF j]) (simp_all add: letter_def)
  have a6: "?B (Lit ''graduate'') = delimited_at (map C ''graduate'') t j"
    by (rule lit_alt[OF j]) (simp_all add: letter_def)
  have a7: "?B (Lit ''trainee'') = delimited_at (map C ''trainee'') t j"
    by (rule lit_alt[OF j]) (simp_all add: letter_def)
  have "(ends EXCLUDED_TITLE_PATTERNS (pos_at t j) \<noteq> [])
        = (\<exists>a\<in>set EXCLUDED_TITLE_ALTERNATIVES. ?B a)"
    unfolding EXCLUDED_TITLE_PATTERNS_def seq_boundary_alts boundary_at_def by blast
  also have "\<dots> = (\<exists>w\<in>set JUNIOR_VOCABULARY. delimited_at w t j)"
    unfolding EXCLUDED_TITLE_ALTERNATIVES_def JUNIOR_VOCABULARY_def list.set bex_simps
      conj_disj_distribL a1 a2 a3 a4 a5 a6 a7 by simp
  finally show ?thesis .
qed

lemma contains_delimited_iff:
  "contains_delimited w t = (\<exists>i\<le>length t. delimited_at w t i)"
proof -
  have "(i \<in> set [0..<Suc (length t)]) = (i \<le> length t)" for i
    by (simp only: set_upt atLeastLessThan_iff less_Suc_eq_le) simp
  then show ?thesis unfolding contains_delimited_def list_ex_iff by blast
qed

lemma entry_level_hyphen:
  "contains_delimited (map C ''entry-level'') t
   \<Longrightarrow> contains_delimited (map C ''entry'' @ AnyOne # map C ''level'') t"
proof -
  have dash: "pc_ok AnyOne d" if "pc_ok (C CHR ''-'') d" for d
    using that unfolding pc_ok.simps canonicalize_def is_line_terminator_def
    by (simp split: if_splits; arith)
  have "delimited_at (map C ''entry'' @ AnyOne # map C ''level'') t i"
    if "delimited_at (map C ''entry-level'') t i" for i
    using that dash unfolding delimited_at_alt
    by (simp add: fits_Cons del: pc_ok.simps)
  then show "contains_delimited (map C ''entry-level'') t
   \<Longrightarrow> contains_delimited (map C ''entry'' @ AnyOne # map C ''level'') t"
    unfolding contains_delimited_iff by blast
qed

text \<open>
  Claim C3 says that a title is excluded when a junior word stands in it as a whole word,
  and is not excluded when the word only occurs inside a longer word.  Both halves fail
  for words as a reader sees them.  In \<open>Junior\<close> followed by \<open>U+00E9\<close> the word
  \<open>junior\<close> occurs only inside a longer word, no entry of the vocabulary is a whole word
  of the title, and the title is excluded.  In \<open>Junior_Analyst\<close> the word \<open>junior\<close> is
  a whole word and the title is not excluded.
\<close>

theorem junior_word_counterexample:
  "occurs (map C ''junior'') (js ''Junior'' @ [233])
   \<and> \<not> names JUNIOR_VOCABULARY (js ''Junior'' @ [233])
   \<and> isExcludedTitle (js ''Junior'' @ [233])
   \<and> names JUNIOR_VOCABULARY (js ''Junior_Analyst'')
   \<and> \<not> isExcludedTitle (js ''Junior_Analyst'')"
  by code_simp

text \<open>
  Claim C3, amended.  The title filter answers true exactly for the titles in which an
  entry of the junior vocabulary (intern, internship, junior, jr, entry-level, graduate,
  trainee) occurs delimited, whatever the case of its letters: the occurrence is
  touched on neither side by one of the characters \<open>A-Z a-z 0-9 _\<close>.  Every such title
  is excluded, and a title that carries these words only undelimited is not.
\<close>

theorem isExcludedTitle_delimited_word:
  "isExcludedTitle t = mentions JUNIOR_VOCABULARY t"
proof -
  have "mentions JUNIOR_VOCABULARY t
        = (\<exists>j\<le>length t. \<exists>w\<in>set JUNIOR_VOCABULARY. delimited_at w t j)"
    unfolding mentions_def list_ex_iff contains_delimited_iff by blast
  also have "\<dots> = (\<exists>j\<le>length t. ends EXCLUDED_TITLE_PATTERNS (pos_at t j) \<noteq> [])"
    using title_at[of _ t] by blast
  finally show ?thesis unfolding isExcludedTitle_def test_iff by simp
qed

theorem isExcludedTitle_delimited_word_witness:
  "mentions JUNIOR_VOCABULARY (js ''Junior Analyst'')
   \<and> isExcludedTitle (js ''Junior Analyst'')
   \<and> \<not> mentions JUNIOR_VOCABULARY (js ''Juniorita Lopez'')
   \<and> \<not> isExcludedTitle (js ''Juniorita Lopez'')"
proof -
  have a: "mentions JUNIOR_VOCABULARY (js ''Junior Analyst'')"
    by code_simp
  have b: "\<not> mentions JUNIOR_VOCABULARY (js ''Juniorita Lopez'')"
    by code_simp
  show ?thesis
    using a b isExcludedTitle_delimited_word[of "js ''Junior Analyst''"]
      isExcludedTitle_delimited_word[of "js ''Juniorita Lopez''"] by blast
qed

subsection \<open>Missing locations\<close>

lemma trim_all_ws: "list_all is_ws s \<Longrightarrow> trim s = []"
proof -
  assume "list_all is_ws s"
  then have "dropWhile is_ws s = []" by (simp add: list_all_iff)
  then show ?thesis unfolding trim_def by (simp only: rev.simps dropWhile.simps)
qed

lemma trim_Nil_imp: "trim s \<noteq> [] \<Longrightarrow> s \<noteq> []"
  by (auto simp: trim_def)

text \<open>
  Claim C4.  The location filter fails open on missing input: an undefined or null
  location, the empty string and a string of white space only are all accepted, whatever
  the location type.
\<close>

theorem isLocationUSOrRemote_fail_open:
  "isLocationUSOrRemote Undefined lt
   \<and> isLocationUSOrRemote Null lt
   \<and> (list_all is_ws s \<longrightarrow> isLocationUSOrRemote (Val s) lt)"
  by (simp add: isLocationUSOrRemote_def trim_all_ws)

theorem isLocationUSOrRemote_fail_open_witness:
  "list_all is_ws [32, 9, 160, 8195]
   \<and> isLocationUSOrRemote (Val [32, 9, 160, 8195]) (Val (js ''ONSITE''))
   \<and> isLocationUSOrRemote (Val []) Undefined
   \<and> isLocationUSOrRemote Undefined (Val (js ''ONSITE''))"
proof -
  have h: "list_all is_ws [32, 9, 160, 8195]" by (simp add: is_ws_def)
  show ?thesis
    using h isLocationUSOrRemote_fail_open[of "Val (js ''ONSITE'')" "[32, 9, 160, 8195]"]
      isLocationUSOrRemote_fail_open[of Undefined "[]"]
    by simp
qed

lemma test_non_us_Nil: "\<not> test NON_US_PATTERNS []"
  by code_simp

lemma location_type_irrelevant:
  "s \<noteq> [] \<Longrightarrow> isLocationUSOrRemote (Val s) lt = isLocationUSOrRemote (Val s) Undefined"
  by (simp add: isLocationUSOrRemote_def)

subsection \<open>Plain alternatives and the terms they stand for\<close>

lemma occurs_iff: "occurs w t = (\<exists>i\<le>length t. fits w t i)"
proof -
  have "(i \<in> set [0..<Suc (length t)]) = (i \<le> length t)" for i
    by (simp only: set_upt atLeastLessThan_iff less_Suc_eq_le) simp
  then show ?thesis unfolding occurs_def list_ex_iff by blast
qed

lemma mentions_terms:
  "mentions (terms ws) t = (\<exists>w\<in>set ws. \<exists>i\<le>length t. delimited_at (map C w) t i)"
  unfolding mentions_def terms_def list_ex_iff contains_delimited_iff by auto

lemma plain_alt:
  assumes i: "i \<le> length t" and p: "plain_term a = Some w" and ok: "term_ok w"
  shows "(boundary_at t i \<and> (\<exists>e'\<in>set (ends a (pos_at t i)). is_boundary (fst e') (snd e')))
         = delimited_at (map C w) t i"
proof -
  have L: "(boundary_at t i \<and> (\<exists>e'\<in>set (ends (Lit w) (pos_at t i)). is_boundary (fst e') (snd e')))
         = delimited_at (map C w) t i"
    using ok by (intro lit_alt[OF i]) (simp_all add: term_ok_def)
  have s1: "(\<exists>e'\<in>set (ends (Seqs [Lit w, Boundary]) e). is_boundary (fst e') (snd e'))
            = (\<exists>e'\<in>set (ends (Lit w) e). is_boundary (fst e') (snd e'))" for e
    by (fastforce simp: ends_Boundary)
  have s2: "(boundary_at t i \<and> (\<exists>e'\<in>set (ends (Seqs [Boundary, Lit w, Boundary]) (pos_at t i)).
                is_boundary (fst e') (snd e')))
            = (boundary_at t i \<and> (\<exists>e'\<in>set (ends (Lit w) (pos_at t i)). is_boundary (fst e') (snd e')))"
    by (fastforce simp: ends_Boundary boundary_at_def)
  from p consider "a = Lit w" | "a = Seqs [Lit w, Boundary]" | "a = Seqs [Boundary, Lit w, Boundary]"
    by (rule plain_term.elims) auto
  then show ?thesis
  proof cases
    case 1 then show ?thesis using L by simp
  next
    case 2 then show ?thesis using L s1 by simp
  next
    case 3 then show ?thesis using L s2 by simp
  qed
qed

lemma mentions_test:
  assumes v: "\<forall>w\<in>set ws. term_ok w \<and> (\<exists>a\<in>set alts. plain_term a = Some w)"
    and m: "mentions (terms ws) t"
  shows "test (Seqs [Boundary, Alts alts, Boundary]) t"
proof -
  from m obtain w i where w: "w \<in> set ws" and i: "i \<le> length t"
    and d: "delimited_at (map C w) t i"
    unfolding mentions_terms by blast
  from v w obtain a where ok: "term_ok w" and a: "a \<in> set alts" and p: "plain_term a = Some w"
    by blast
  have "boundary_at t i \<and> (\<exists>e'\<in>set (ends a (pos_at t i)). is_boundary (fst e') (snd e'))"
    using plain_alt[OF i p ok] d by simp
  then have "ends (Seqs [Boundary, Alts alts, Boundary]) (pos_at t i) \<noteq> []"
    unfolding seq_boundary_alts boundary_at_def using a by blast
  then show ?thesis unfolding test_iff using i by blast
qed

lemma test_alternative:
  assumes "test (Seqs [Boundary, Alts alts, Boundary]) t"
  shows "\<exists>a\<in>set alts. \<exists>i\<le>length t. boundary_at t i
           \<and> (\<exists>e'\<in>set (ends a (pos_at t i)). is_boundary (fst e') (snd e'))"
  using assms unfolding test_iff seq_boundary_alts boundary_at_def by blast

lemma seq_lit_head:
  assumes i: "i \<le> length t" and e: "e' \<in> set (ends (Seqs (Lit w # rs)) (pos_at t i))"
  shows "fits (map C w) t i"
proof (rule ccontr)
  assume "\<not> fits (map C w) t i"
  then have "ends (Lit w) (pos_at t i) = []" using i by (simp add: lit_ends)
  then have "ends (Seqs (Lit w # rs)) (pos_at t i) = []" by simp
  with e show False by simp
qed

lemma lit_head:
  assumes i: "i \<le> length t" and e: "e' \<in> set (ends (Lit w) (pos_at t i))"
  shows "fits (map C w) t i"
proof (rule ccontr)
  assume "\<not> fits (map C w) t i"
  then have "ends (Lit w) (pos_at t i) = []" using i by (simp add: lit_ends)
  with e show False by simp
qed

subsection \<open>Trimming\<close>

lemma ws_not_word: "is_ws c \<Longrightarrow> \<not> is_word c"
  unfolding is_ws_def is_word_def by arith

lemma trim_decomp:
  obtains pre post where "s = pre @ trim s @ post"
    and "\<forall>c\<in>set pre. is_ws c" and "\<forall>c\<in>set post. is_ws c"
proof -
  let ?r = "dropWhile is_ws s"
  let ?pre = "takeWhile is_ws s"
  let ?post = "rev (takeWhile is_ws (rev ?r))"
  have 1: "s = ?pre @ ?r" by simp
  have "rev (takeWhile is_ws (rev ?r) @ dropWhile is_ws (rev ?r)) = ?r" by simp
  then have 2: "?r = trim s @ ?post" unfolding trim_def rev_append by simp
  have 3: "\<forall>c\<in>set ?pre. is_ws c" by (auto dest: set_takeWhileD)
  have 4: "\<forall>c\<in>set ?post. is_ws c" by (auto dest: set_takeWhileD)
  from 1 2 have "s = ?pre @ trim s @ ?post" by simp
  with 3 4 show ?thesis using that by blast
qed

lemma fits_embed: "fits w m i \<Longrightarrow> fits w (pre @ m @ post) (length pre + i)"
  by (simp add: fits_def)

lemma delimited_embed:
  assumes d: "delimited_at w m i"
    and pre: "\<forall>c\<in>set pre. \<not> is_word c" and post: "\<forall>c\<in>set post. \<not> is_word c"
  shows "delimited_at w (pre @ m @ post) (length pre + i)"
proof -
  from d have f: "fits w m i" and l: "i = 0 \<or> \<not> is_word (m ! (i - 1))"
    and r: "i + length w = length m \<or> \<not> is_word (m ! (i + length w))"
    unfolding delimited_at_alt by blast+
  have len: "i + length w \<le> length m" using f by (rule fits_le)
  have L: "length pre + i = 0 \<or> \<not> is_word ((pre @ m @ post) ! (length pre + i - 1))"
  proof (cases "i = 0")
    case True
    show ?thesis
    proof (cases "pre = []")
      case True with \<open>i = 0\<close> show ?thesis by simp
    next
      case False
      then have "(pre @ m @ post) ! (length pre + i - 1) = last pre"
        using \<open>i = 0\<close> by (simp add: nth_append last_conv_nth)
      moreover have "last pre \<in> set pre" using False by simp
      ultimately show ?thesis using pre by simp
    qed
  next
    case False
    then have e: "length pre + i - 1 = length pre + (i - 1)" by simp
    have "(pre @ m @ post) ! (length pre + (i - 1)) = (m @ post) ! (i - 1)"
      by (rule nth_append_length_plus)
    also have "\<dots> = m ! (i - 1)"
    proof -
      have "i - 1 < length m" using False len by linarith
      then show ?thesis by (simp only: nth_append if_True)
    qed
    finally show ?thesis using l False e by simp
  qed
  have R: "length pre + i + length w = length (pre @ m @ post)
           \<or> \<not> is_word ((pre @ m @ post) ! (length pre + i + length w))"
  proof (cases "i + length w = length m")
    case True
    show ?thesis
    proof (cases "post = []")
      case True with \<open>i + length w = length m\<close> show ?thesis by simp
    next
      case False
      have "length pre + i + length w = length pre + length m" using True by simp
      then have "(pre @ m @ post) ! (length pre + i + length w) = hd post"
        using False by (simp add: nth_append hd_conv_nth)
      moreover have "hd post \<in> set post" using False by simp
      ultimately show ?thesis using post by simp
    qed
  next
    case False
    then have lt: "i + length w < length m" using len by simp
    then have "(pre @ m @ post) ! (length pre + i + length w) = m ! (i + length w)"
      by (simp add: nth_append add.assoc)
    then show ?thesis using r False by simp
  qed
  show ?thesis
    unfolding delimited_at_alt using fits_embed[OF f, of pre post] L R
    by (simp add: add.assoc)
qed

lemma delimited_restrict:
  assumes d: "delimited_at w (pre @ m @ post) j"
    and ne: "w \<noteq> []" and a: "hd w = C a" "letter a" and b: "last w = C b" "letter b"
    and pre: "\<forall>c\<in>set pre. \<not> is_word c" and post: "\<forall>c\<in>set post. \<not> is_word c"
  shows "\<exists>i. j = length pre + i \<and> delimited_at w m i"
proof -
  let ?s = "pre @ m @ post"
  from d have f: "fits w ?s j" and l: "j = 0 \<or> \<not> is_word (?s ! (j - 1))"
    and r: "j + length w = length ?s \<or> \<not> is_word (?s ! (j + length w))"
    unfolding delimited_at_alt by blast+
  have len: "j + length w \<le> length ?s" using f by (rule fits_le)
  have lw: "1 \<le> length w" using ne by (cases w) auto
  have "pc_ok (w ! 0) (?s ! (j + 0))" by (rule fits_nth[OF f]) (use lw in linarith)
  then have first: "is_word (?s ! j)" using a ne pc_ok_letter by (simp add: hd_conv_nth)
  have "pc_ok (w ! (length w - 1)) (?s ! (j + (length w - 1)))"
    by (rule fits_nth[OF f]) (use lw in linarith)
  then have lastw: "is_word (?s ! (j + (length w - 1)))"
    using b ne pc_ok_letter by (simp add: last_conv_nth)
  have inside: "length pre \<le> k \<and> k < length pre + length m"
    if k: "k < length ?s" and w: "is_word (?s ! k)" for k
  proof (rule ccontr)
    assume n: "\<not> (length pre \<le> k \<and> k < length pre + length m)"
    show False
    proof (cases "k < length pre")
      case True
      then have "?s ! k \<in> set pre" by (simp add: nth_append)
      with pre w show False by blast
    next
      case False
      with n have ge: "length pre + length m \<le> k" by simp
      define q where "q = k - length pre - length m"
      have kq: "k = length pre + (length m + q)" using ge by (simp add: q_def)
      have "?s ! k = (m @ post) ! (length m + q)"
        unfolding kq by (rule nth_append_length_plus)
      also have "\<dots> = post ! q" by (rule nth_append_length_plus)
      finally have "?s ! k = post ! q" .
      moreover have "q < length post" using k ge by (simp add: q_def)
      ultimately have "?s ! k \<in> set post" by simp
      with post w show False by blast
    qed
  qed
  have j1: "length pre \<le> j" using inside[of j] first len lw by simp
  have j2: "j + (length w - 1) < length pre + length m"
    using inside[of "j + (length w - 1)"] lastw len lw by simp
  define i where "i = j - length pre"
  have ji: "j = length pre + i" using j1 by (simp add: i_def)
  have il: "i + length w \<le> length m" using j2 ji lw by linarith
  have fi: "fits w m i"
    using f il unfolding fits_def ji by simp
  have L: "i = 0 \<or> \<not> is_word (m ! (i - 1))"
  proof (cases "i = 0")
    case True then show ?thesis by simp
  next
    case False
    then have e: "j - 1 = length pre + (i - 1)" using ji by simp
    have "?s ! (length pre + (i - 1)) = (m @ post) ! (i - 1)"
      by (rule nth_append_length_plus)
    also have "\<dots> = m ! (i - 1)"
    proof -
      have "i - 1 < length m" using False il by linarith
      then show ?thesis by (simp only: nth_append if_True)
    qed
    finally have "?s ! (j - 1) = m ! (i - 1)" using e by simp
    moreover have "j \<noteq> 0" using False ji by simp
    ultimately show ?thesis using l by simp
  qed
  have R: "i + length w = length m \<or> \<not> is_word (m ! (i + length w))"
  proof (cases "i + length w = length m")
    case True then show ?thesis by simp
  next
    case False
    then have lt: "i + length w < length m" using il by simp
    then have "?s ! (j + length w) = m ! (i + length w)"
      unfolding ji by (simp add: nth_append add.assoc)
    moreover have "j + length w \<noteq> length ?s" using lt ji by simp
    ultimately show ?thesis using r by simp
  qed
  show ?thesis using ji fi L R unfolding delimited_at_alt by blast
qed

lemma contains_delimited_trim:
  assumes ok: "term_ok w"
  shows "contains_delimited (map C w) (trim s) = contains_delimited (map C w) s"
proof -
  obtain pre post where s: "s = pre @ trim s @ post"
    and pre: "\<forall>c\<in>set pre. is_ws c" and post: "\<forall>c\<in>set post. is_ws c"
    by (rule trim_decomp)
  have pre': "\<forall>c\<in>set pre. \<not> is_word c" using pre ws_not_word by blast
  have post': "\<forall>c\<in>set post. \<not> is_word c" using post ws_not_word by blast
  have w: "map C w \<noteq> []" "hd (map C w) = C (hd w)" "letter (hd w)"
    "last (map C w) = C (last w)" "letter (last w)"
    using ok by (simp_all add: term_ok_def hd_map last_map)
  show ?thesis
  proof
    assume "contains_delimited (map C w) (trim s)"
    then obtain i where "delimited_at (map C w) (trim s) i"
      unfolding contains_delimited_iff by blast
    then have d: "delimited_at (map C w) (pre @ trim s @ post) (length pre + i)"
      by (rule delimited_embed[OF _ pre' post'])
    then have "length pre + i + length (map C w) \<le> length (pre @ trim s @ post)"
      unfolding delimited_at_def by blast
    then have "length pre + i \<le> length (pre @ trim s @ post)" by simp
    with d have "contains_delimited (map C w) (pre @ trim s @ post)"
      unfolding contains_delimited_iff by blast
    then show "contains_delimited (map C w) s" using s by simp
  next
    assume "contains_delimited (map C w) s"
    then have "contains_delimited (map C w) (pre @ trim s @ post)" using s by simp
    then obtain j where "delimited_at (map C w) (pre @ trim s @ post) j"
      unfolding contains_delimited_iff by blast
    from delimited_restrict[OF this w pre' post']
    obtain i where d: "delimited_at (map C w) (trim s) i" by blast
    then have "i + length (map C w) \<le> length (trim s)" unfolding delimited_at_def by blast
    then have "i \<le> length (trim s)" by simp
    with d show "contains_delimited (map C w) (trim s)"
      unfolding contains_delimited_iff by blast
  qed
qed

lemma mentions_trim:
  assumes "\<forall>w\<in>set ws. term_ok w"
  shows "mentions (terms ws) (trim s) = mentions (terms ws) s"
  using assms contains_delimited_trim
  unfolding mentions_def terms_def list_ex_iff by auto

lemma occurs_trim: "occurs w (trim s) \<Longrightarrow> occurs w s"
proof -
  assume "occurs w (trim s)"
  then obtain i where f: "fits w (trim s) i" unfolding occurs_iff by blast
  obtain pre post where s: "s = pre @ trim s @ post" by (rule trim_decomp)
  have e: "fits w (pre @ trim s @ post) (length pre + i)" by (rule fits_embed[OF f])
  then have "length pre + i \<le> length (pre @ trim s @ post)" using fits_le by fastforce
  with e have "occurs w (pre @ trim s @ post)" unfolding occurs_iff by blast
  then show ?thesis using s by simp
qed

lemma match_lit_extend:
  "match_lit cs p t = Some (p', t') \<Longrightarrow> \<exists>q'. match_lit cs q (t @ x) = Some (q', t' @ x)"
proof (induction cs p t arbitrary: q rule: match_lit.induct)
  case (1 p t)
  then show ?case by simp
next
  case (2 c cs p)
  then show ?case by simp
next
  case (3 c cs p d ds)
  then show ?case by (simp split: if_splits)
qed

lemma spaces_ends_zero: "(q, x) \<in> set (spaces_ends q x)"
  by (cases x) simp_all

lemma spaces_ends_extend:
  "(p', t') \<in> set (spaces_ends p t) \<Longrightarrow> \<exists>q'. (q', t' @ x) \<in> set (spaces_ends q (t @ x))"
proof (induction p t arbitrary: q rule: spaces_ends.induct)
  case (1 p)
  then show ?case using spaces_ends_zero[of q x] by auto
next
  case (2 p d ds)
  show ?case
  proof (cases "is_ws d")
    case False
    with 2 show ?thesis by auto
  next
    case True
    from 2(2) True consider "(p', t') \<in> set (spaces_ends (Some d) ds)" | "t' = d # ds"
      by auto
    then show ?thesis
    proof cases
      case 1
      from 2(1)[OF True 1, of "Some d"] show ?thesis using True by auto
    next
      case 2
      then show ?thesis using True by auto
    qed
  qed
qed


lemma ends_extend:
  "boundary_free r \<Longrightarrow> (p', t') \<in> set (ends r e)
   \<Longrightarrow> \<exists>q'. (q', t' @ x) \<in> set (ends r (q, snd e @ x))"
proof (induction r e arbitrary: p' t' q rule: ends.induct)
  case (1 cs p t)
  then have "match_lit cs p t = Some (p', t')" by (auto split: option.splits)
  from match_lit_extend[OF this, of q x] show ?case by auto
next
  case (2 p t)
  then show ?case by (cases t) (auto split: if_splits)
next
  case (3 p t)
  then show ?case using spaces_ends_extend[of p' t' p t x q] by simp
next
  case (4 p t)
  then show ?case by simp
next
  case (5 r e)
  from 5(3) consider "(p', t') \<in> set (ends r e)" | "(p', t') = e" by auto
  then show ?case
  proof cases
    case 1
    from 5(1)[OF _ 1, of q] 5(2) show ?thesis by auto
  next
    case 2
    then have "(q, t' @ x) = (q, snd e @ x)" by auto
    then show ?thesis by auto
  qed
next
  case (6 e)
  then have "(q, t' @ x) = (q, snd e @ x)" by auto
  then show ?case by auto
next
  case (7 r rs e)
  from 7(4) obtain e1 where e1: "e1 \<in> set (ends r e)" and m: "(p', t') \<in> set (ends (Seqs rs) e1)"
    by auto
  have bf: "boundary_free r" "boundary_free (Seqs rs)" using 7(3) by simp_all
  obtain p1 t1 where pt: "e1 = (p1, t1)" by (cases e1)
  from 7(1)[OF bf(1), of p1 t1 q] e1 pt
  obtain q1 where q1: "(q1, t1 @ x) \<in> set (ends r (q, snd e @ x))" by auto
  from 7(2)[OF e1 bf(2) m, of q1] pt
  obtain q' where "(q', t' @ x) \<in> set (ends (Seqs rs) (q1, t1 @ x))" by auto
  with q1 show ?case by auto
next
  case (8 rs e)
  from 8(3) obtain r where r: "r \<in> set rs" and m: "(p', t') \<in> set (ends r e)" by auto
  have "boundary_free r" using 8(2) r by simp
  from 8(1)[OF r this m, of q] r show ?case by auto
qed

lemma test_extend:
  assumes bf: "boundary_free r" and t: "test r m"
  shows "test r (pre @ m @ post)"
proof -
  from t obtain j where j: "j \<le> length m" and e: "ends r (pos_at m j) \<noteq> []"
    unfolding test_iff by blast
  then obtain p' t' where "(p', t') \<in> set (ends r (pos_at m j))"
    by (cases "ends r (pos_at m j)") auto
  from ends_extend[OF bf this, of post "fst (pos_at (pre @ m @ post) (length pre + j))"]
  obtain q' where "(q', t' @ post)
      \<in> set (ends r (fst (pos_at (pre @ m @ post) (length pre + j)), snd (pos_at m j) @ post))"
    by blast
  moreover have "snd (pos_at m j) @ post = snd (pos_at (pre @ m @ post) (length pre + j))"
    using j by (simp add: pos_at_def)
  ultimately have "ends r (pos_at (pre @ m @ post) (length pre + j)) \<noteq> []"
    by (metis empty_iff list.set(1) prod.collapse)
  moreover have "length pre + j \<le> length (pre @ m @ post)" using j by simp
  ultimately show ?thesis unfolding test_iff by blast
qed

lemma test_trim: "boundary_free r \<Longrightarrow> test r (trim s) \<Longrightarrow> test r s"
proof -
  assume bf: "boundary_free r" and t: "test r (trim s)"
  obtain pre post where s: "s = pre @ trim s @ post" by (rule trim_decomp)
  from test_extend[OF bf t, of pre post] s show ?thesis by simp
qed

lemma outside_us_trim: "test OUTSIDE_US (trim s) \<Longrightarrow> test OUTSIDE_US s"
  by (rule test_trim) (simp add: OUTSIDE_US_def)

subsection \<open>The vocabularies of the location filter\<close>

lemma non_us_terms_plain:
  "\<forall>w\<in>set NON_US_TERMS. term_ok w \<and> (\<exists>a\<in>set NON_US_ALTERNATIVES. plain_term a = Some w)"
proof -
  have "list_all (\<lambda>w. term_ok w \<and> list_ex (\<lambda>a. plain_term a = Some w) NON_US_ALTERNATIVES)
          NON_US_TERMS"
    by code_simp
  then show ?thesis unfolding list_all_iff list_ex_iff .
qed

lemma us_terms_plain:
  "\<forall>w\<in>set US_TERMS. term_ok w \<and> (\<exists>a\<in>set US_ALTERNATIVES. plain_term a = Some w)"
proof -
  have "list_all (\<lambda>w. term_ok w \<and> list_ex (\<lambda>a. plain_term a = Some w) US_ALTERNATIVES)
          US_TERMS"
    by code_simp
  then show ?thesis unfolding list_all_iff list_ex_iff .
qed

lemma us_alternatives_cases:
  "\<forall>a\<in>set US_ALTERNATIVES.
     a = Lit ''u.s.''
     \<or> a = Seqs [Lit ''washington'', Spaces, Lit ''d'', Optional (Lit ''.''), Lit ''c'',
                 Optional (Lit ''.'')]
     \<or> (case plain_term a of None \<Rightarrow> False | Some w \<Rightarrow> term_ok w \<and> w \<in> set US_TERMS)"
proof -
  have "list_all (\<lambda>a. a = Lit ''u.s.''
     \<or> a = Seqs [Lit ''washington'', Spaces, Lit ''d'', Optional (Lit ''.''), Lit ''c'',
                 Optional (Lit ''.'')]
     \<or> (case plain_term a of None \<Rightarrow> False | Some w \<Rightarrow> term_ok w \<and> w \<in> set US_TERMS))
     US_ALTERNATIVES"
    by code_simp
  then show ?thesis unfolding list_all_iff .
qed

lemma mentions_non_us_test:
  "mentions NON_US_VOCABULARY t \<Longrightarrow> test NON_US_PATTERNS t"
  unfolding NON_US_VOCABULARY_def NON_US_PATTERNS_def
  by (rule mentions_test[OF non_us_terms_plain])

lemma mentions_us_test:
  "mentions US_VOCABULARY t \<Longrightarrow> test US_PATTERNS t"
  unfolding US_VOCABULARY_def US_PATTERNS_def
  by (rule mentions_test[OF us_terms_plain])

lemma test_us_cases:
  assumes "test US_PATTERNS t"
  shows "mentions US_VOCABULARY t \<or> occurs (map C ''u.s.'') t
         \<or> occurs (map C ''washington'') t"
proof -
  from assms obtain a i e' where a: "a \<in> set US_ALTERNATIVES" and i: "i \<le> length t"
    and b: "boundary_at t i" and e: "e' \<in> set (ends a (pos_at t i))"
    and b': "is_boundary (fst e') (snd e')"
    unfolding US_PATTERNS_def using test_alternative[of US_ALTERNATIVES t] by blast
  from us_alternatives_cases a consider
      (dots) "a = Lit ''u.s.''"
    | (wdc) "a = Seqs [Lit ''washington'', Spaces, Lit ''d'', Optional (Lit ''.''), Lit ''c'',
                 Optional (Lit ''.'')]"
    | (plain) w where "plain_term a = Some w" "term_ok w" "w \<in> set US_TERMS"
    by (cases "plain_term a") auto
  then show ?thesis
  proof cases
    case dots
    then have "fits (map C ''u.s.'') t i" using lit_head[OF i] e by blast
    then show ?thesis unfolding occurs_iff using i by blast
  next
    case wdc
    then have "fits (map C ''washington'') t i" using seq_lit_head[OF i] e by blast
    then show ?thesis unfolding occurs_iff using i by blast
  next
    case plain
    have "delimited_at (map C w) t i"
      using plain_alt[OF i plain(1) plain(2)] b e b' by blast
    moreover have "w \<in> set US_TERMS" using plain(3) .
    ultimately have "mentions (terms US_TERMS) t" unfolding mentions_terms using i by blast
    then show ?thesis by (simp add: US_VOCABULARY_def)
  qed
qed

lemma non_us_terms_ok: "\<forall>w\<in>set NON_US_TERMS. term_ok w"
  using non_us_terms_plain by blast

lemma us_terms_ok: "\<forall>w\<in>set US_TERMS. term_ok w"
  using us_terms_plain by blast

lemma mentions_non_us_trim: "mentions NON_US_VOCABULARY (trim s) = mentions NON_US_VOCABULARY s"
  unfolding NON_US_VOCABULARY_def by (rule mentions_trim[OF non_us_terms_ok])

lemma mentions_us_trim: "mentions US_VOCABULARY (trim s) = mentions US_VOCABULARY s"
  unfolding US_VOCABULARY_def by (rule mentions_trim[OF us_terms_ok])

text \<open>
  Claim C2 says that a location containing a non-US term is rejected when it contains no
  US term and accepted as soon as it contains one.  \<open>Europe (outside US)\<close> contains a
  term of each vocabulary and is rejected, because the text is first checked for
  "outside US".  \<open>London_HQ\<close> contains the non-US term \<open>london\<close> as a word and no US
  term, and is accepted, because the underscore does not delimit a word for the
  patterns.  \<open>UK / U.S.\<close> contains \<open>uk\<close> and \<open>u.s.\<close> and is rejected: the pattern
  wants a word character after the last dot of \<open>u.s.\<close>.
\<close>

theorem non_us_with_us_counterexample:
  "names NON_US_VOCABULARY (js ''Europe (outside US)'')
   \<and> names US_VOCABULARY (js ''Europe (outside US)'')
   \<and> isLocationUSOrRemote (Val (js ''Europe (outside US)'')) Undefined = False
   \<and> names NON_US_VOCABULARY (js ''London_HQ'')
   \<and> \<not> names US_VOCABULARY (js ''London_HQ'')
   \<and> \<not> occurs (map C ''u.s.'') (js ''London_HQ'')
   \<and> \<not> occurs (map C ''washington'') (js ''London_HQ'')
   \<and> isLocationUSOrRemote (Val (js ''London_HQ'')) Undefined = True
   \<and> names NON_US_VOCABULARY (js ''UK / U.S.'')
   \<and> contains_whole_word (map C ''u.s.'') (js ''UK / U.S.'')
   \<and> isLocationUSOrRemote (Val (js ''UK / U.S.'')) Undefined = False"
  by code_simp

text \<open>
  Claim C2, amended.  Terms are taken delimited, as the patterns take them: touched on
  neither side by one of the characters \<open>A-Z a-z 0-9 _\<close>; the US terms are the plain
  ones.  A location that mentions a non-US term and no US term, and in which neither
  \<open>u.s.\<close> nor \<open>washington\<close> occurs at all, is rejected.  A location that mentions a
  non-US term and a US term, and does not say "outside (of) (the) US", is accepted.
  \<open>Remote - Europe\<close> is rejected, \<open>Remote - New York\<close> and \<open>Worldwide\<close> are accepted.
\<close>

theorem isLocationUSOrRemote_vocabularies:
  "(mentions NON_US_VOCABULARY s \<and> \<not> mentions US_VOCABULARY s
      \<and> \<not> occurs (map C ''u.s.'') s \<and> \<not> occurs (map C ''washington'') s
      \<longrightarrow> isLocationUSOrRemote (Val s) lt = False)
   \<and> (mentions NON_US_VOCABULARY s \<and> mentions US_VOCABULARY s \<and> \<not> test OUTSIDE_US s
      \<longrightarrow> isLocationUSOrRemote (Val s) lt = True)
   \<and> isLocationUSOrRemote (Val (js ''Remote - Europe'')) lt = False
   \<and> isLocationUSOrRemote (Val (js ''Remote - New York'')) lt = True
   \<and> isLocationUSOrRemote (Val (js ''Worldwide'')) lt = True"
proof -
  have non: "test NON_US_PATTERNS (trim s) \<and> s \<noteq> [] \<and> trim s \<noteq> []"
    if "mentions NON_US_VOCABULARY s"
  proof -
    have t: "test NON_US_PATTERNS (trim s)"
      using that mentions_non_us_trim[of s] mentions_non_us_test by blast
    then show ?thesis using test_non_us_Nil trim_Nil_imp by metis
  qed
  have p1: "isLocationUSOrRemote (Val s) lt = False"
    if n: "mentions NON_US_VOCABULARY s" and u: "\<not> mentions US_VOCABULARY s"
      and d: "\<not> occurs (map C ''u.s.'') s" and w: "\<not> occurs (map C ''washington'') s"
  proof -
    have "\<not> test US_PATTERNS (trim s)"
      using test_us_cases[of "trim s"] u d w mentions_us_trim[of s] occurs_trim by blast
    then show ?thesis using non[OF n] by (simp add: isLocationUSOrRemote_def)
  qed
  have p2: "isLocationUSOrRemote (Val s) lt = True"
    if n: "mentions NON_US_VOCABULARY s" and u: "mentions US_VOCABULARY s"
      and o: "\<not> test OUTSIDE_US s"
  proof -
    have "test US_PATTERNS (trim s)"
      using u mentions_us_trim[of s] mentions_us_test by blast
    moreover have "\<not> test OUTSIDE_US (trim s)" using o outside_us_trim by blast
    ultimately show ?thesis using non[OF n] by (simp add: isLocationUSOrRemote_def)
  qed
  have e1: "isLocationUSOrRemote (Val (js ''Remote - Europe'')) Undefined = False"
    by code_simp
  have e2: "isLocationUSOrRemote (Val (js ''Remote - New York'')) Undefined = True"
    by code_simp
  have e3: "isLocationUSOrRemote (Val (js ''Worldwide'')) Undefined = True"
    by code_simp
  have n1: "js ''Remote - Europe'' \<noteq> []" "js ''Remote - New York'' \<noteq> []" "js ''Worldwide'' \<noteq> []"
    by (simp_all add: js_def)
  show ?thesis
    using p1 p2 e1 e2 e3 location_type_irrelevant[OF n1(1), of lt]
      location_type_irrelevant[OF n1(2), of lt]
      location_type_irrelevant[OF n1(3), of lt]
    by blast
qed

theorem isLocationUSOrRemote_vocabularies_witness:
  "mentions NON_US_VOCABULARY (js '' Berlin or London '')
   \<and> \<not> mentions US_VOCABULARY (js '' Berlin or London '')
   \<and> \<not> occurs (map C ''u.s.'') (js '' Berlin or London '')
   \<and> \<not> occurs (map C ''washington'') (js '' Berlin or London '')
   \<and> isLocationUSOrRemote (Val (js '' Berlin or London '')) (Val (js ''REMOTE'')) = False
   \<and> mentions NON_US_VOCABULARY (js ''New York, NY / Remote, London'')
   \<and> mentions US_VOCABULARY (js ''New York, NY / Remote, London'')
   \<and> \<not> test OUTSIDE_US (js ''New York, NY / Remote, London'')
   \<and> isLocationUSOrRemote (Val (js ''New York, NY / Remote, London'')) Null = True"
proof -
  have a: "mentions NON_US_VOCABULARY (js '' Berlin or London '')
   \<and> \<not> mentions US_VOCABULARY (js '' Berlin or London '')
   \<and> \<not> occurs (map C ''u.s.'') (js '' Berlin or London '')
   \<and> \<not> occurs (map C ''washington'') (js '' Berlin or London '')" by code_simp
  have b: "mentions NON_US_VOCABULARY (js ''New York, NY / Remote, London'')
   \<and> mentions US_VOCABULARY (js ''New York, NY / Remote, London'')
   \<and> \<not> test OUTSIDE_US (js ''New York, NY / Remote, London'')" by code_simp
  show ?thesis
    using a b isLocationUSOrRemote_vocabularies[of "js '' Berlin or London ''" "Val (js ''REMOTE'')"]
      isLocationUSOrRemote_vocabularies[of "js ''New York, NY / Remote, London''" Null]
    by blast
qed

section \<open>The store: properties\<close>

lemma job_key_set_columns [simp]: "job_key (set_columns job now r) = job_key r"
  by (simp add: job_key_def set_columns_def)

lemma c_id_set_columns [simp]: "c_id (set_columns job now r) = c_id r"
  by (simp add: set_columns_def)

lemma c_source_set_columns [simp]: "c_source (set_columns job now r) = c_source r"
  by (simp add: set_columns_def)

lemma c_source_id_set_columns [simp]: "c_source_id (set_columns job now r) = c_source_id r"
  by (simp add: set_columns_def)

lemma job_key_new_row [simp]: "job_key (new_row uid source job now) = (source, sourceId job)"
  by (simp add: job_key_def new_row_def)

lemma c_id_new_row [simp]: "c_id (new_row uid source job now) = uid"
  by (simp add: new_row_def)

lemma find_key_None:
  "find (\<lambda>r. c_source r = source \<and> c_source_id r = sid) rows = None
   \<Longrightarrow> (source, sid) \<notin> set (map job_key rows)"
  by (auto simp: find_None_iff job_key_def)

lemma find_key_Some:
  "find (\<lambda>r. c_source r = source \<and> c_source_id r = sid) rows = Some e
   \<Longrightarrow> e \<in> set rows \<and> job_key e = (source, sid)"
  by (auto simp: find_Some_iff job_key_def)

lemma upsertJob_update:
  assumes "find (\<lambda>r. c_source r = source \<and> c_source_id r = sourceId job) (jobs st) = Some existing"
  shows "upsertJob orc st source job =
           (Inr \<lparr>job_id = c_id existing, isNew = False\<rparr>,
            st\<lparr>uuid_calls := Suc (uuid_calls st), clock_reads := Suc (clock_reads st),
               jobs := map (\<lambda>r. if c_id r = c_id existing
                                  then set_columns job (clock orc (clock_reads st)) r else r)
                           (jobs st)\<rparr>)"
  using assms by (simp add: upsertJob_def Let_def)

lemma upsertJob_insert:
  assumes "find (\<lambda>r. c_source r = source \<and> c_source_id r = sourceId job) (jobs st) = None"
    and "uuidv4 orc (uuid_calls st) \<notin> set (map c_id (jobs st))"
  shows "upsertJob orc st source job =
           (Inr \<lparr>job_id = uuidv4 orc (uuid_calls st), isNew = True\<rparr>,
            st\<lparr>uuid_calls := Suc (uuid_calls st), clock_reads := Suc (clock_reads st),
               jobs := jobs st @ [new_row (uuidv4 orc (uuid_calls st)) source job
                                          (clock orc (clock_reads st))]\<rparr>)"
  using assms by (simp add: upsertJob_def Let_def)

lemma upsertJob_conflict:
  assumes "find (\<lambda>r. c_source r = source \<and> c_source_id r = sourceId job) (jobs st) = None"
    and "uuidv4 orc (uuid_calls st) \<in> set (map c_id (jobs st))"
  shows "upsertJob orc st source job =
           (Inl (JsError (js ''UNIQUE constraint failed: jobs.id'')),
            st\<lparr>uuid_calls := Suc (uuid_calls st), clock_reads := Suc (clock_reads st)\<rparr>)"
  using assms by (simp add: upsertJob_def Let_def)

lemma map_key_update:
  "map (job_key \<circ> (\<lambda>r. if c_id r = i then set_columns job now r else r)) rows
   = map job_key rows"
  by (induction rows) auto

lemma find_snoc:
  "find P (xs @ [x]) = (case find P xs of None \<Rightarrow> if P x then Some x else None | Some y \<Rightarrow> Some y)"
  by (induction xs) auto

lemma upsertJob_keeps_keys_distinct:
  assumes "distinct (map job_key (jobs st))"
  shows "distinct (map job_key (jobs (snd (upsertJob orc st source job))))"
proof (cases "find (\<lambda>r. c_source r = source \<and> c_source_id r = sourceId job) (jobs st)")
  case (Some existing)
  show ?thesis
    unfolding upsertJob_update[OF Some] using assms by (simp add: map_key_update)
next
  case None
  show ?thesis
  proof (cases "uuidv4 orc (uuid_calls st) \<in> set (map c_id (jobs st))")
    case True
    show ?thesis unfolding upsertJob_conflict[OF None True] using assms by simp
  next
    case False
    show ?thesis
      unfolding upsertJob_insert[OF None False] using assms find_key_None[OF None] by simp
  qed
qed

lemma reachable_keys_distinct: "reachable orc st \<Longrightarrow> distinct (map job_key (jobs st))"
proof (induction rule: reachable.induct)
  case (fresh st)
  then show ?case by simp
next
  case (upsert st source job)
  show ?case using upsert.IH by (rule upsertJob_keeps_keys_distinct)
next
  case (other st st')
  then show ?case by simp
qed

lemma filter_key_absent:
  "k \<notin> set (map job_key rows) \<Longrightarrow> filter (\<lambda>r. job_key r = k) rows = []"
  by (induction rows) auto

lemma map_update_fresh:
  "i \<notin> set (map c_id rows) \<Longrightarrow> map (\<lambda>r. if c_id r = i then f r else r) rows = rows"
  by (induction rows) auto

lemma set_columns_new_row:
  "sourceId job2 = sourceId job1
   \<Longrightarrow> set_columns job2 now2 (new_row uid source job1 now1) = new_row uid source job2 now2"
  by (simp add: set_columns_def new_row_def)

text \<open>
  Claim C1.  From a store that holds no job with the key \<open>(source, sourceId)\<close>, and with
  the drawn id not yet in use, two calls of \<open>upsertJob\<close> with that key answer
  \<open>isNew = true\<close> and then \<open>isNew = false\<close> with the same id; afterwards exactly one
  row carries the key, its fields are those of the second call and its timestamp is the
  second call's, and the table has grown by one row only.  In every reachable state of
  the store no two job rows share a key.
\<close>

theorem upsertJob_idempotent:
  assumes absent: "find (\<lambda>r. c_source r = source \<and> c_source_id r = sourceId job1) (jobs st) = None"
    and fresh_id: "uuidv4 orc (uuid_calls st) \<notin> set (map c_id (jobs st))"
    and same_key: "sourceId job2 = sourceId job1"
  shows "fst (upsertJob orc st source job1) = Inr \<lparr>job_id = uuidv4 orc (uuid_calls st), isNew = True\<rparr>
    \<and> fst (upsertJob orc (snd (upsertJob orc st source job1)) source job2)
        = Inr \<lparr>job_id = uuidv4 orc (uuid_calls st), isNew = False\<rparr>
    \<and> filter (\<lambda>r. job_key r = (source, sourceId job1))
         (jobs (snd (upsertJob orc (snd (upsertJob orc st source job1)) source job2)))
        = [new_row (uuidv4 orc (uuid_calls st)) source job2 (clock orc (Suc (clock_reads st)))]
    \<and> length (jobs (snd (upsertJob orc (snd (upsertJob orc st source job1)) source job2)))
        = Suc (length (jobs st))
    \<and> (reachable orc st' \<longrightarrow> distinct (map job_key (jobs st')))"
proof -
  let ?uid = "uuidv4 orc (uuid_calls st)"
  let ?row1 = "new_row ?uid source job1 (clock orc (clock_reads st))"
  let ?st1 = "st\<lparr>uuid_calls := Suc (uuid_calls st), clock_reads := Suc (clock_reads st),
                   jobs := jobs st @ [?row1]\<rparr>"
  have first: "upsertJob orc st source job1 = (Inr \<lparr>job_id = ?uid, isNew = True\<rparr>, ?st1)"
    by (rule upsertJob_insert[OF absent fresh_id])
  have nokey: "(source, sourceId job1) \<notin> set (map job_key (jobs st))"
    by (rule find_key_None[OF absent])
  have found: "find (\<lambda>r. c_source r = source \<and> c_source_id r = sourceId job2) (jobs ?st1)
               = Some ?row1"
    using absent same_key by (simp add: find_snoc new_row_def)
  have second: "upsertJob orc ?st1 source job2
      = (Inr \<lparr>job_id = ?uid, isNew = False\<rparr>,
         ?st1\<lparr>uuid_calls := Suc (uuid_calls ?st1), clock_reads := Suc (clock_reads ?st1),
              jobs := map (\<lambda>r. if c_id r = c_id ?row1
                                 then set_columns job2 (clock orc (clock_reads ?st1)) r else r)
                          (jobs ?st1)\<rparr>)"
    using upsertJob_update[OF found] by simp
  have rows: "map (\<lambda>r. if c_id r = c_id ?row1
                        then set_columns job2 (clock orc (clock_reads ?st1)) r else r) (jobs ?st1)
              = jobs st @ [new_row ?uid source job2 (clock orc (Suc (clock_reads st)))]"
    using fresh_id set_columns_new_row[OF same_key]
    by (simp add: map_update_fresh)
  show ?thesis
    unfolding first snd_conv fst_conv second rows
    using nokey same_key reachable_keys_distinct[of orc st']
    by (simp add: filter_key_absent)
qed

theorem upsertJob_idempotent_witness:
  "find (\<lambda>r. c_source r = js ''jobstash''
              \<and> c_source_id r = sourceId (demo_job (js ''42'') (js ''PM'') None))
        (jobs empty_store) = None
   \<and> uuidv4 demo_env (uuid_calls empty_store) \<notin> set (map c_id (jobs empty_store))
   \<and> sourceId (demo_job (js ''42'') (js ''Senior PM'') (Some (js ''Remote'')))
       = sourceId (demo_job (js ''42'') (js ''PM'') None)
   \<and> fst (upsertJob demo_env empty_store (js ''jobstash'') (demo_job (js ''42'') (js ''PM'') None))
       = Inr \<lparr>job_id = js ''id-0'', isNew = True\<rparr>
   \<and> fst (upsertJob demo_env
             (snd (upsertJob demo_env empty_store (js ''jobstash'')
                     (demo_job (js ''42'') (js ''PM'') None)))
             (js ''jobstash'') (demo_job (js ''42'') (js ''Senior PM'') (Some (js ''Remote''))))
       = Inr \<lparr>job_id = js ''id-0'', isNew = False\<rparr>
   \<and> filter (\<lambda>r. job_key r = (js ''jobstash'', sourceId (demo_job (js ''42'') (js ''PM'') None)))
        (jobs (snd (upsertJob demo_env
             (snd (upsertJob demo_env empty_store (js ''jobstash'')
                     (demo_job (js ''42'') (js ''PM'') None)))
             (js ''jobstash'') (demo_job (js ''42'') (js ''Senior PM'') (Some (js ''Remote''))))))
       = [new_row (js ''id-0'') (js ''jobstash'')
            (demo_job (js ''42'') (js ''Senior PM'') (Some (js ''Remote''))) (js ''t1'')]
   \<and> reachable demo_env (snd (upsertJob demo_env empty_store (js ''jobstash'')
                     (demo_job (js ''42'') (js ''PM'') None)))
   \<and> distinct (map job_key (jobs (snd (upsertJob demo_env empty_store (js ''jobstash'')
                     (demo_job (js ''42'') (js ''PM'') None)))))"
proof -
  let ?j1 = "demo_job (js ''42'') (js ''PM'') None"
  let ?j2 = "demo_job (js ''42'') (js ''Senior PM'') (Some (js ''Remote''))"
  let ?s1 = "snd (upsertJob demo_env empty_store (js ''jobstash'') ?j1)"
  have h1: "find (\<lambda>r. c_source r = js ''jobstash'' \<and> c_source_id r = sourceId ?j1)
              (jobs empty_store) = None"
    by (simp add: empty_store_def)
  have h2: "uuidv4 demo_env (uuid_calls empty_store) \<notin> set (map c_id (jobs empty_store))"
    by (simp add: empty_store_def)
  have h3: "sourceId ?j2 = sourceId ?j1" by (simp add: demo_job_def)
  have r: "reachable demo_env ?s1"
    by (rule reachable.upsert, rule reachable.fresh) (simp add: empty_store_def)
  have u: "uuidv4 demo_env (uuid_calls empty_store) = js ''id-0''"
    by (simp add: demo_env_def empty_store_def js_def)
  have c: "clock demo_env (Suc (clock_reads empty_store)) = js ''t1''"
    by (simp add: demo_env_def empty_store_def js_def)
  have e: "jobs empty_store = []" by (simp add: empty_store_def)
  from upsertJob_idempotent[OF h1 h2 h3, of ?s1] r h1 h2 h3
  show ?thesis unfolding u c by (simp add: e)
qed

text \<open>
  Claim C10.  When \<open>upsertJob\<close> finds a row for the key it returns that row's id, not
  the one it drew, and the update leaves the \<open>id\<close>, \<open>source\<close> and \<open>source_id\<close>
  columns of every row as they were: only the columns of \<open>set_columns\<close> (the mutable
  fields and \<open>scraped_at\<close>) are written.  The score and action tables are not touched,
  so their rows stay attached to the job.
\<close>

theorem upsertJob_existing_keeps_identity:
  assumes "find (\<lambda>r. c_source r = source \<and> c_source_id r = sourceId job) (jobs st) = Some existing"
  shows "fst (upsertJob orc st source job) = Inr \<lparr>job_id = c_id existing, isNew = False\<rparr>
    \<and> jobs (snd (upsertJob orc st source job))
        = map (\<lambda>r. if c_id r = c_id existing
                    then set_columns job (clock orc (clock_reads st)) r else r) (jobs st)
    \<and> map c_id (jobs (snd (upsertJob orc st source job))) = map c_id (jobs st)
    \<and> map c_source (jobs (snd (upsertJob orc st source job))) = map c_source (jobs st)
    \<and> map c_source_id (jobs (snd (upsertJob orc st source job))) = map c_source_id (jobs st)
    \<and> job_scores (snd (upsertJob orc st source job)) = job_scores st
    \<and> job_actions (snd (upsertJob orc st source job)) = job_actions st"
proof -
  have "map (f \<circ> (\<lambda>r. if c_id r = i then set_columns job now r else r)) rows = map f rows"
    if "\<And>r. f (set_columns job now r) = f r" for f :: "'a JobRow \<Rightarrow> jstring" and i now rows
    using that by (induction rows) auto
  then show ?thesis
    unfolding upsertJob_update[OF assms] by simp
qed


theorem upsertJob_existing_keeps_identity_witness:
  "find (\<lambda>r. c_source r = js ''jobstash''
              \<and> c_source_id r = sourceId (demo_job (js ''42'') (js ''Senior PM'') None))
        (jobs demo_store_one)
     = Some (new_row (js ''id-0'') (js ''jobstash'') (demo_job (js ''42'') (js ''PM'') None) (js ''t0''))
   \<and> fst (upsertJob demo_env demo_store_one (js ''jobstash'')
             (demo_job (js ''42'') (js ''Senior PM'') None))
       = Inr \<lparr>job_id = js ''id-0'', isNew = False\<rparr>
   \<and> map c_id (jobs (snd (upsertJob demo_env demo_store_one (js ''jobstash'')
             (demo_job (js ''42'') (js ''Senior PM'') None)))) = [js ''id-0'']
   \<and> map c_title (jobs (snd (upsertJob demo_env demo_store_one (js ''jobstash'')
             (demo_job (js ''42'') (js ''Senior PM'') None)))) = [js ''Senior PM'']
   \<and> map c_scraped_at (jobs (snd (upsertJob demo_env demo_store_one (js ''jobstash'')
             (demo_job (js ''42'') (js ''Senior PM'') None)))) = [js ''t1'']"
proof -
  let ?j2 = "demo_job (js ''42'') (js ''Senior PM'') None"
  let ?r1 = "new_row (js ''id-0'') (js ''jobstash'') (demo_job (js ''42'') (js ''PM'') None) (js ''t0'')"
  have h: "find (\<lambda>r. c_source r = js ''jobstash'' \<and> c_source_id r = sourceId ?j2)
             (jobs demo_store_one) = Some ?r1"
    by (simp add: demo_store_one_def empty_store_def new_row_def demo_job_def)
  have c: "clock demo_env (clock_reads demo_store_one) = js ''t1''"
    by (simp add: demo_env_def demo_store_one_def empty_store_def js_def)
  have j: "jobs demo_store_one = [?r1]"
    by (simp add: demo_store_one_def empty_store_def)
  have t: "c_title (set_columns ?j2 (js ''t1'') ?r1) = js ''Senior PM''"
    "c_scraped_at (set_columns ?j2 (js ''t1'') ?r1) = js ''t1''"
    by (simp_all add: set_columns_def demo_job_def)
  from upsertJob_existing_keeps_identity[OF h, of demo_env] h
  show ?thesis unfolding c j by (simp add: t)
qed

section \<open>The scrape runner: properties\<close>

lemma upsertJob_runs [simp]:
  "scrape_runs (snd (upsertJob orc st source job)) = scrape_runs st"
  by (simp add: upsertJob_def Let_def split: option.split)

lemma upsert_all_runs [simp]:
  "scrape_runs (snd (upsert_all orc st source raws n)) = scrape_runs st"
proof (induction raws arbitrary: st n)
  case Nil
  show ?case by simp
next
  case (Cons raw rest)
  obtain res st1 where u: "upsertJob orc st source raw = (res, st1)" by (cases "upsertJob orc st source raw")
  have "scrape_runs st1 = scrape_runs st" using upsertJob_runs[of orc st source raw] u by simp
  then show ?case using Cons.IH[of st1] u by (cases res) simp_all
qed

lemma next_run_id_fresh: "next_run_id st \<notin> set (map r_id (scrape_runs st))"
proof
  assume "next_run_id st \<in> set (map r_id (scrape_runs st))"
  then have "next_run_id st \<le> Max (insert (run_seq st) (set (map r_id (scrape_runs st))))"
    by (intro Max_ge) auto
  then show False by (simp add: next_run_id_def)
qed

lemma startScrapeRun_eq:
  "startScrapeRun orc st source =
     (next_run_id st,
      st\<lparr>clock_reads := Suc (clock_reads st), run_seq := next_run_id st,
         scrape_runs := scrape_runs st @
           [\<lparr>r_id = next_run_id st, r_source = source, r_started_at = clock orc (clock_reads st),
             r_completed_at = None, r_status = js ''running'', r_jobs_found = 0,
             r_jobs_new = 0, r_error = None\<rparr>]\<rparr>)"
  by (simp add: startScrapeRun_def next_run_id_def Let_def)

lemma map_close_fresh:
  "rid \<notin> set (map r_id rows) \<Longrightarrow> map (\<lambda>r. if r_id r = rid then f r else r) rows = rows"
  by (induction rows) auto

lemma completeScrapeRun_last:
  assumes "scrape_runs st = rows @ [row]" and "r_id row = rid" and "rid \<notin> set (map r_id rows)"
  shows "scrape_runs (completeScrapeRun orc st rid status found new err)
         = rows @ [row\<lparr>r_completed_at := Some (clock orc (clock_reads st)), r_status := status,
                       r_jobs_found := found, r_jobs_new := new, r_error := err\<rparr>]"
    and "clock_reads (completeScrapeRun orc st rid status found new err) = Suc (clock_reads st)"
  using assms by (simp_all add: completeScrapeRun_def Let_def map_close_fresh)

lemma runScraper_runs:
  assumes known: "source \<in> set adapters"
  shows "scrape_runs (snd (runScraper orc scrape st source))
         = scrape_runs st @
           [closed_run (next_run_id st) source (clock orc (clock_reads st))
              (clock orc (clock_reads (snd (runScraper orc scrape st source)) - 1))
              (fst (runScraper orc scrape st source))]"
proof -
  let ?row = "\<lparr>r_id = next_run_id st, r_source = source, r_started_at = clock orc (clock_reads st),
             r_completed_at = None, r_status = js ''running'', r_jobs_found = 0,
             r_jobs_new = 0, r_error = None\<rparr>"
  let ?st1 = "st\<lparr>clock_reads := Suc (clock_reads st), run_seq := next_run_id st,
         scrape_runs := scrape_runs st @ [?row]\<rparr>"
  have fresh: "next_run_id st \<notin> set (map r_id (scrape_runs st))" by (rule next_run_id_fresh)
  have idrow: "r_id ?row = next_run_id st" by simp
  show ?thesis
  proof (cases "scrape source")
    case (Throws e)
    have r: "runScraper orc scrape st source
             = (Inl e, completeScrapeRun orc ?st1 (next_run_id st) (js ''failed'') 0 0
                         (Some (message_of e)))"
      using known Throws by (simp add: runScraper_def startScrapeRun_eq)
    have s: "scrape_runs ?st1 = scrape_runs st @ [?row]" by simp
    show ?thesis
      unfolding r snd_conv fst_conv
        completeScrapeRun_last[OF s idrow fresh]
      by (simp add: closed_run_def)
  next
    case (Returns raws)
    obtain res st2 where u: "upsert_all orc ?st1 source raws 0 = (res, st2)"
      by (cases "upsert_all orc ?st1 source raws 0")
    have s: "scrape_runs st2 = scrape_runs st @ [?row]"
      using upsert_all_runs[of orc ?st1 source raws 0] u by simp
    show ?thesis
    proof (cases res)
      case (Inl e)
      have r: "runScraper orc scrape st source
             = (Inl e, completeScrapeRun orc st2 (next_run_id st) (js ''failed'') 0 0
                         (Some (message_of e)))"
        using known Returns u Inl by (simp add: runScraper_def startScrapeRun_eq)
      show ?thesis
        unfolding r snd_conv fst_conv
          completeScrapeRun_last[OF s idrow fresh]
        by (simp add: closed_run_def)
    next
      case (Inr n)
      have r: "runScraper orc scrape st source
             = (Inr \<lparr>jobsFound = int (length raws), jobsNew = n\<rparr>,
                completeScrapeRun orc st2 (next_run_id st) (js ''completed'')
                  (int (length raws)) n None)"
        using known Returns u Inr by (simp add: runScraper_def startScrapeRun_eq)
      show ?thesis
        unfolding r snd_conv fst_conv
          completeScrapeRun_last[OF s idrow fresh]
        by (simp add: closed_run_def)
    qed
  qed
qed

lemma runScraper_throws:
  "source \<in> set adapters \<Longrightarrow> scrape source = Throws e
   \<Longrightarrow> fst (runScraper orc scrape st source) = Inl e"
  by (simp add: runScraper_def split: prod.split)

lemma runScraper_returns:
  assumes "source \<in> set adapters" and "scrape source = Returns raws"
  shows "fst (runScraper orc scrape st source)
         = (case fst (upsert_all orc (snd (startScrapeRun orc st source)) source raws 0) of
              Inr n \<Rightarrow> Inr \<lparr>jobsFound = int (length raws), jobsNew = n\<rparr>
            | Inl e \<Rightarrow> Inl e)"
  using assms by (simp add: runScraper_def split: prod.split sum.split)

lemma closed_run_status:
  "r_status (closed_run rid source a b res) \<noteq> js ''running''"
  by (cases res) (simp_all add: closed_run_def js_def)

text \<open>
  Claim C6.  For a known source \<open>runScraper\<close> adds one row to \<open>scrape_runs\<close> and leaves
  it closed: \<open>completed\<close> with the found and new counts when it returns, \<open>failed\<close> with
  the error's message and zero counts when the adapter (or an upsert) throws, in which
  case the same error reaches the caller.  The rows that were there are untouched and
  the new row is never left \<open>running\<close>.
\<close>

theorem runScraper_closes_run:
  assumes known: "source \<in> set adapters"
  shows "scrape_runs (snd (runScraper orc scrape st source))
         = scrape_runs st @
           [closed_run (next_run_id st) source (clock orc (clock_reads st))
              (clock orc (clock_reads (snd (runScraper orc scrape st source)) - 1))
              (fst (runScraper orc scrape st source))]
    \<and> (\<forall>r\<in>set (drop (length (scrape_runs st)) (scrape_runs (snd (runScraper orc scrape st source)))).
          r_status r \<noteq> js ''running'')
    \<and> (\<forall>e. scrape source = Throws e \<longrightarrow> fst (runScraper orc scrape st source) = Inl e)
    \<and> (\<forall>raws. scrape source = Returns raws \<longrightarrow>
          fst (runScraper orc scrape st source)
          = (case fst (upsert_all orc (snd (startScrapeRun orc st source)) source raws 0) of
               Inr n \<Rightarrow> Inr \<lparr>jobsFound = int (length raws), jobsNew = n\<rparr>
             | Inl e \<Rightarrow> Inl e))"
  using runScraper_runs[OF known, of orc scrape st] runScraper_throws[OF known, of scrape _ orc st]
    runScraper_returns[OF known, of scrape _ orc st]
  by (simp add: closed_run_status)

theorem runScraper_closes_run_witness:
  "js ''safary'' \<in> set adapters
   \<and> demo_scrape (js ''safary'') = Throws (JsError (js ''boom''))
   \<and> fst (runScraper demo_env demo_scrape empty_store (js ''safary'')) = Inl (JsError (js ''boom''))
   \<and> scrape_runs (snd (runScraper demo_env demo_scrape empty_store (js ''safary'')))
       = [\<lparr>r_id = 1, r_source = js ''safary'', r_started_at = js ''t0'',
           r_completed_at = Some (js ''t1''), r_status = js ''failed'', r_jobs_found = 0,
           r_jobs_new = 0, r_error = Some (js ''boom'')\<rparr>]
   \<and> js ''jobstash'' \<in> set adapters
   \<and> demo_scrape (js ''jobstash'') = Returns [demo_job (js ''42'') (js ''PM'') None]
   \<and> fst (runScraper demo_env demo_scrape empty_store (js ''jobstash''))
       = Inr \<lparr>jobsFound = 1, jobsNew = 1\<rparr>
   \<and> scrape_runs (snd (runScraper demo_env demo_scrape empty_store (js ''jobstash'')))
       = [\<lparr>r_id = 1, r_source = js ''jobstash'', r_started_at = js ''t0'',
           r_completed_at = Some (js ''t2''), r_status = js ''completed'', r_jobs_found = 1,
           r_jobs_new = 1, r_error = None\<rparr>]"
proof -
  let ?R1 = "runScraper demo_env demo_scrape empty_store (js ''safary'')"
  let ?R2 = "runScraper demo_env demo_scrape empty_store (js ''jobstash'')"
  have k1: "js ''safary'' \<in> set adapters" and k2: "js ''jobstash'' \<in> set adapters"
    by (simp_all add: adapters_def)
  have o1: "demo_scrape (js ''safary'') = Throws (JsError (js ''boom''))"
    and o2: "demo_scrape (js ''jobstash'') = Returns [demo_job (js ''42'') (js ''PM'') None]"
    by (simp_all add: demo_scrape_def js_def)
  have c1: "clock_reads (snd ?R1) = 2" and c2: "clock_reads (snd ?R2) = 3"
    by code_simp+
  have u: "fst (upsert_all demo_env (snd (startScrapeRun demo_env empty_store (js ''jobstash'')))
                 (js ''jobstash'') [demo_job (js ''42'') (js ''PM'') None] 0) = Inr 1"
    by code_simp
  have n: "next_run_id empty_store = 1" "scrape_runs empty_store = []"
    "clock demo_env (clock_reads empty_store) = js ''t0''"
    "clock demo_env (2 - 1) = js ''t1''" "clock demo_env (3 - 1) = js ''t2''"
    by (simp_all add: next_run_id_def empty_store_def demo_env_def js_def)
  note T1 = runScraper_closes_run[OF k1, of demo_env demo_scrape empty_store]
  note T2 = runScraper_closes_run[OF k2, of demo_env demo_scrape empty_store]
  have a1: "fst ?R1 = Inl (JsError (js ''boom''))" using T1 o1 by blast
  have "scrape_runs (snd ?R1)
        = scrape_runs empty_store @
          [closed_run (next_run_id empty_store) (js ''safary'')
             (clock demo_env (clock_reads empty_store)) (clock demo_env (clock_reads (snd ?R1) - 1))
             (fst ?R1)]"
    using T1 by blast
  then have a2: "scrape_runs (snd ?R1)
       = [\<lparr>r_id = 1, r_source = js ''safary'', r_started_at = js ''t0'',
           r_completed_at = Some (js ''t1''), r_status = js ''failed'', r_jobs_found = 0,
           r_jobs_new = 0, r_error = Some (js ''boom'')\<rparr>]"
    unfolding a1 c1 n by (simp add: closed_run_def)
  have "fst ?R2 = (case fst (upsert_all demo_env (snd (startScrapeRun demo_env empty_store (js ''jobstash'')))
                 (js ''jobstash'') [demo_job (js ''42'') (js ''PM'') None] 0) of
               Inr n \<Rightarrow> Inr \<lparr>jobsFound = int (length [demo_job (js ''42'') (js ''PM'') None]), jobsNew = n\<rparr>
             | Inl e \<Rightarrow> Inl e)"
    using T2 o2 by blast
  then have a3: "fst ?R2 = Inr \<lparr>jobsFound = 1, jobsNew = 1\<rparr>" unfolding u by simp
  have "scrape_runs (snd ?R2)
        = scrape_runs empty_store @
          [closed_run (next_run_id empty_store) (js ''jobstash'')
             (clock demo_env (clock_reads empty_store)) (clock demo_env (clock_reads (snd ?R2) - 1))
             (fst ?R2)]"
    using T2 by blast
  then have a4: "scrape_runs (snd ?R2)
       = [\<lparr>r_id = 1, r_source = js ''jobstash'', r_started_at = js ''t0'',
           r_completed_at = Some (js ''t2''), r_status = js ''completed'', r_jobs_found = 1,
           r_jobs_new = 1, r_error = None\<rparr>]"
    unfolding a3 c2 n by (simp add: closed_run_def)
  show ?thesis using k1 k2 o1 o2 a1 a2 a3 a4 by blast
qed

lemma run_sources_state:
  "snd (run_sources orc scrape st srcs res) = snd (run_sources orc scrape st srcs res')"
proof (induction srcs arbitrary: st res res')
  case Nil
  show ?case by simp
next
  case (Cons x rest)
  obtain r st1 where u: "runScraper orc scrape st x = (r, st1)" by (cases "runScraper orc scrape st x")
  show ?case using Cons.IH[of st1] u by (cases r) simp_all
qed

lemma run_sources_step:
  "run_sources orc scrape st (x # rest) res
   = run_sources orc scrape (snd (runScraper orc scrape st x)) rest
       (res(x \<mapsto> entry_of (fst (runScraper orc scrape st x))))"
  by (cases "runScraper orc scrape st x"; cases "fst (runScraper orc scrape st x)")
     (simp_all add: entry_of_def)

lemma run_sources_other:
  "s \<notin> set srcs \<Longrightarrow> fst (run_sources orc scrape st srcs res) s = res s"
proof (induction srcs arbitrary: st res)
  case Nil
  show ?case by simp
next
  case (Cons x rest)
  then show ?case unfolding run_sources_step by simp
qed

lemma run_sources_dom:
  "dom (fst (run_sources orc scrape st srcs res)) = dom res \<union> set srcs"
proof (induction srcs arbitrary: st res)
  case Nil
  show ?case by simp
next
  case (Cons x rest)
  show ?case unfolding run_sources_step Cons.IH by auto
qed

lemma run_sources_entry:
  assumes "distinct srcs" and "s \<in> set srcs"
  shows "fst (run_sources orc scrape st srcs res) s
         = Some (entry_of (fst (runScraper orc scrape
              (snd (run_sources orc scrape st (takeWhile (\<lambda>x. x \<noteq> s) srcs) Map.empty)) s)))"
  using assms
proof (induction srcs arbitrary: st res)
  case Nil
  then show ?case by simp
next
  case (Cons x rest)
  show ?case
  proof (cases "x = s")
    case True
    then have "s \<notin> set rest" using Cons.prems by simp
    then show ?thesis unfolding run_sources_step using True by (simp add: run_sources_other)
  next
    case False
    then have s: "s \<in> set rest" and d: "distinct rest" using Cons.prems by auto
    have tw: "takeWhile (\<lambda>x. x \<noteq> s) (x # rest) = x # takeWhile (\<lambda>x. x \<noteq> s) rest"
      using False by simp
    show ?thesis
      unfolding tw run_sources_step
      using Cons.IH[OF d s] run_sources_state[of orc scrape _ _ _ Map.empty] by metis
  qed
qed

lemma run_sources_runs:
  assumes "set srcs \<subseteq> set adapters"
  shows "\<exists>new. scrape_runs (snd (run_sources orc scrape st srcs res)) = scrape_runs st @ new
           \<and> map r_source new = srcs \<and> (\<forall>r\<in>set new. r_status r \<noteq> js ''running'')"
  using assms
proof (induction srcs arbitrary: st res)
  case Nil
  show ?case by simp
next
  case (Cons x rest)
  have x: "x \<in> set adapters" and rest: "set rest \<subseteq> set adapters" using Cons.prems by auto
  let ?st1 = "snd (runScraper orc scrape st x)"
  let ?row = "closed_run (next_run_id st) x (clock orc (clock_reads st))
              (clock orc (clock_reads ?st1 - 1)) (fst (runScraper orc scrape st x))"
  have one: "scrape_runs ?st1 = scrape_runs st @ [?row]" by (rule runScraper_runs[OF x])
  have src: "r_source ?row = x"
    by (cases "fst (runScraper orc scrape st x)") (simp_all add: closed_run_def)
  obtain new where n: "scrape_runs (snd (run_sources orc scrape ?st1 rest
                          (res(x \<mapsto> entry_of (fst (runScraper orc scrape st x))))))
                       = scrape_runs ?st1 @ new"
      "map r_source new = rest" "\<forall>r\<in>set new. r_status r \<noteq> js ''running''"
    using Cons.IH[OF rest] by blast
  show ?case
    unfolding run_sources_step
    by (rule exI[of _ "?row # new"]) (use n one src closed_run_status in simp)
qed

lemma adapters_distinct: "distinct adapters"
  by (simp add: adapters_def js_def)

text \<open>
  Claim C5.  \<open>runAllScrapers\<close> returns an entry for every configured source and for no
  other.  Each entry is what \<open>runScraper\<close> gives for that source on the state left by
  the sources before it, with zero counts in place of an error; so a source whose adapter
  throws is recorded as \<open>{jobsFound: 0, jobsNew: 0}\<close>, and the sources after it are
  still run: the call leaves one closed run row per configured source, in order.
\<close>

theorem runAllScrapers_covers_all:
  "dom (fst (runAllScrapers orc scrape st)) = set adapters
   \<and> (\<forall>s\<in>set adapters. fst (runAllScrapers orc scrape st) s
        = Some (entry_of (fst (runScraper orc scrape
            (snd (run_sources orc scrape st (takeWhile (\<lambda>x. x \<noteq> s) adapters) Map.empty)) s))))
   \<and> (\<forall>s\<in>set adapters. \<forall>e. scrape s = Throws e
        \<longrightarrow> fst (runAllScrapers orc scrape st) s = Some \<lparr>jobsFound = 0, jobsNew = 0\<rparr>)
   \<and> map r_source (drop (length (scrape_runs st)) (scrape_runs (snd (runAllScrapers orc scrape st))))
       = adapters
   \<and> (\<forall>r\<in>set (drop (length (scrape_runs st)) (scrape_runs (snd (runAllScrapers orc scrape st)))).
         r_status r \<noteq> js ''running'')"
proof -
  have e: "fst (runAllScrapers orc scrape st) s
        = Some (entry_of (fst (runScraper orc scrape
            (snd (run_sources orc scrape st (takeWhile (\<lambda>x. x \<noteq> s) adapters) Map.empty)) s)))"
    if "s \<in> set adapters" for s
    unfolding runAllScrapers_def by (rule run_sources_entry[OF adapters_distinct that])
  have t: "fst (runAllScrapers orc scrape st) s = Some \<lparr>jobsFound = 0, jobsNew = 0\<rparr>"
    if "s \<in> set adapters" "scrape s = Throws e" for s e
    using e[OF that(1)] runScraper_throws[of s scrape e orc, OF that] by (simp add: entry_of_def)
  obtain new where n: "scrape_runs (snd (runAllScrapers orc scrape st)) = scrape_runs st @ new"
      "map r_source new = adapters" "\<forall>r\<in>set new. r_status r \<noteq> js ''running''"
    unfolding runAllScrapers_def using run_sources_runs[of adapters orc scrape st Map.empty] by blast
  show ?thesis
    using e t n by (simp add: runAllScrapers_def run_sources_dom)
qed

theorem runAllScrapers_covers_all_witness:
  "js ''safary'' \<in> set adapters
   \<and> demo_scrape (js ''safary'') = Throws (JsError (js ''boom''))
   \<and> fst (runAllScrapers demo_env demo_scrape empty_store) (js ''safary'')
       = Some \<lparr>jobsFound = 0, jobsNew = 0\<rparr>
   \<and> dom (fst (runAllScrapers demo_env demo_scrape empty_store)) = set adapters
   \<and> map r_source (scrape_runs (snd (runAllScrapers demo_env demo_scrape empty_store))) = adapters
   \<and> fst (runAllScrapers demo_env demo_scrape empty_store) (js ''jobstash'')
       = Some \<lparr>jobsFound = 1, jobsNew = 1\<rparr>"
proof -
  let ?R = "runAllScrapers demo_env demo_scrape empty_store"
  have k1: "js ''safary'' \<in> set adapters" and k2: "js ''jobstash'' \<in> set adapters"
    by (simp_all add: adapters_def)
  have o1: "demo_scrape (js ''safary'') = Throws (JsError (js ''boom''))"
    by (simp add: demo_scrape_def js_def)
  have tw: "takeWhile (\<lambda>x. x \<noteq> js ''jobstash'') adapters = []" by (simp add: adapters_def)
  have ev: "entry_of (fst (runScraper demo_env demo_scrape empty_store (js ''jobstash'')))
            = \<lparr>jobsFound = 1, jobsNew = 1\<rparr>"
    by code_simp
  have n: "scrape_runs empty_store = []" by (simp add: empty_store_def)
  note T = runAllScrapers_covers_all[of demo_env demo_scrape empty_store]
  have a1: "fst ?R (js ''safary'') = Some \<lparr>jobsFound = 0, jobsNew = 0\<rparr>"
    using T k1 o1 by blast
  have a2: "dom (fst ?R) = set adapters" using T by blast
  have "map r_source (drop (length (scrape_runs empty_store)) (scrape_runs (snd ?R))) = adapters"
    using T by blast
  then have a3: "map r_source (scrape_runs (snd ?R)) = adapters" by (simp add: n)
  have "fst ?R (js ''jobstash'')
        = Some (entry_of (fst (runScraper demo_env demo_scrape
            (snd (run_sources demo_env demo_scrape empty_store
                    (takeWhile (\<lambda>x. x \<noteq> js ''jobstash'') adapters) Map.empty)) (js ''jobstash''))))"
    using T k2 by blast
  then have a4: "fst ?R (js ''jobstash'') = Some \<lparr>jobsFound = 1, jobsNew = 1\<rparr>"
    unfolding tw by (simp add: ev)
  show ?thesis using k1 o1 a1 a2 a3 a4 by blast
qed

section \<open>The scoring pipeline: properties\<close>

lemma withRetry_loop_Inr:
  "withRetry_loop fn n a le = Inr v \<Longrightarrow> \<exists>k<n. a \<le> k \<and> fn k = Inr v"
proof (induction fn n a le rule: withRetry_loop.induct)
  case (1 fn n a le)
  show ?case
  proof (cases "a < n")
    case False
    with "1.prems" show ?thesis by (simp add: withRetry_loop.simps[of fn n a le])
  next
    case True
    show ?thesis
    proof (cases "fn a")
      case (Inr w)
      with True "1.prems" have "w = v" by (simp add: withRetry_loop.simps[of fn n a le])
      with Inr True show ?thesis by auto
    next
      case (Inl e)
      with True "1.prems" have "withRetry_loop fn n (Suc a) (Some e) = Inr v"
        by (simp add: withRetry_loop.simps[of fn n a le])
      from "1.IH"[OF True Inl this] show ?thesis by (metis Suc_leD)
    qed
  qed
qed

lemma withRetry_loop_exhausted:
  "\<forall>k<n. a \<le> k \<longrightarrow> isl (fn k) \<Longrightarrow> isl (withRetry_loop fn n a le)"
proof (induction fn n a le rule: withRetry_loop.induct)
  case (1 fn n a le)
  show ?case
  proof (cases "a < n")
    case False
    then show ?thesis by (simp add: withRetry_loop.simps[of fn n a le])
  next
    case True
    then obtain e where e: "fn a = Inl e" using "1.prems" by (cases "fn a") auto
    have "isl (withRetry_loop fn n (Suc a) (Some e))"
      by (rule "1.IH"[OF True e]) (use "1.prems" in auto)
    with True e show ?thesis by (simp add: withRetry_loop.simps[of fn n a le])
  qed
qed

lemma withRetry_Inr: "withRetry fn n = Inr v \<Longrightarrow> \<exists>k<n. fn k = Inr v"
proof -
  assume "withRetry fn n = Inr v"
  then have "withRetry_loop fn n 0 None = Inr v" by (simp add: withRetry_def)
  from withRetry_loop_Inr[OF this] show ?thesis by auto
qed

lemma withRetry_exhausted: "\<forall>k<n. isl (fn k) \<Longrightarrow> isl (withRetry fn n)"
  unfolding withRetry_def by (rule withRetry_loop_exhausted) simp

lemma judge_once_Inr: "judge_once a = Inr r \<Longrightarrow> \<exists>x. overall_score r = Num x"
  by (auto simp: judge_once_def split: attempt.splits jsv.splits)

lemma accepted_numeric:
  "withRetry (\<lambda>k. judge_once (judge k)) n = Inr r \<Longrightarrow> \<exists>x. overall_score r = Num x"
proof -
  assume "withRetry (\<lambda>k. judge_once (judge k)) n = Inr r"
  from withRetry_Inr[OF this] obtain k where "judge_once (judge k) = Inr r" by auto
  then show ?thesis by (rule judge_once_Inr)
qed

lemma exhausted_iff: "exhausted judge = (\<forall>k<3. isl (judge_once (judge k)))"
  by (auto simp: exhausted_def list_all_iff)

lemma exhausted_not_scored: "exhausted judge \<Longrightarrow> \<not> scored_ok judge"
proof -
  assume "exhausted judge"
  then have "isl (withRetry (\<lambda>k. judge_once (judge k)) 3)"
    unfolding exhausted_iff by (intro withRetry_exhausted) simp
  then show ?thesis by (auto simp: scored_ok_def split: sum.splits)
qed

lemma upsertScore_jobs [simp]: "jobs (snd (upsertScore orc st a)) = jobs st"
  by (simp add: upsertScore_def Let_def split: option.splits)

lemma scoreJob_jobs [simp]: "jobs (snd (scoreJob orc judge st job)) = jobs st"
  by (simp add: scoreJob_def split: sum.splits)

lemma upsertScore_rejects:
  assumes "reasoning' a = Unbindable \<or> overallScore a = None \<or> relevanceScore a = None
           \<or> experienceMatch a = None \<or> domainMatch a = None \<or> seniorityFit a = None"
  shows "isl (fst (upsertScore orc st a))"
    and "job_scores (snd (upsertScore orc st a)) = job_scores st"
  using assms by (auto simp: upsertScore_def Let_def split: option.splits)

lemma upsertScore_stores:
  assumes "reasoning' a \<noteq> Unbindable" and "overallScore a = Some ov"
    and "relevanceScore a = Some rl" and "experienceMatch a = Some ex"
    and "domainMatch a = Some dm" and "seniorityFit a = Some sn"
    and "jobId a \<in> set (map c_id (jobs st))"
  shows "upsertScore orc st a =
     (Inr (),
      st\<lparr>clock_reads := Suc (clock_reads st),
         job_scores := filter (\<lambda>s. s_job_id s \<noteq> jobId a) (job_scores st)
           @ [\<lparr>s_job_id = jobId a, s_overall_score = ov, s_relevance_score = rl,
               s_experience_match = ex, s_domain_match = dm, s_seniority_fit = sn,
               s_reasoning = (case reasoning' a of Text t \<Rightarrow> Some t | _ \<Rightarrow> None),
               s_scored_at = clock orc (clock_reads st), s_model_used = modelUsed a\<rparr>]\<rparr>)"
  using assms by (simp add: upsertScore_def Let_def)

lemma scoreJob_failed:
  assumes "\<not> scored_ok judge"
  shows "isl (fst (scoreJob orc judge st job))"
    and "job_scores (snd (scoreJob orc judge st job)) = job_scores st"
proof -
  show "isl (fst (scoreJob orc judge st job))"
  proof (cases "withRetry (\<lambda>k. judge_once (judge k)) 3")
    case (Inl e)
    then show ?thesis by (simp add: scoreJob_def)
  next
    case (Inr r)
    with assms have "\<not> storable r" by (simp add: scored_ok_def)
    then show ?thesis
      unfolding scoreJob_def Inr sum.case
      by (intro upsertScore_rejects(1)) (auto simp: storable_def)
  qed
  show "job_scores (snd (scoreJob orc judge st job)) = job_scores st"
  proof (cases "withRetry (\<lambda>k. judge_once (judge k)) 3")
    case (Inl e)
    then show ?thesis by (simp add: scoreJob_def)
  next
    case (Inr r)
    with assms have "\<not> storable r" by (simp add: scored_ok_def)
    then show ?thesis
      unfolding scoreJob_def Inr sum.case
      by (intro upsertScore_rejects(2)) (auto simp: storable_def)
  qed
qed

lemma scoreJob_stores:
  assumes acc: "withRetry (\<lambda>k. judge_once (judge k)) 3 = Inr r" and st: "storable r"
    and fk: "c_id job \<in> set (map c_id (jobs st))"
  shows "scoreJob orc judge st job =
     (Inr (),
      st\<lparr>clock_reads := Suc (clock_reads st),
         job_scores := filter (\<lambda>s. s_job_id s \<noteq> c_id job) (job_scores st)
           @ [\<lparr>s_job_id = c_id job,
               s_overall_score = the (math_round (overall_score r)),
               s_relevance_score = the (math_round (relevance_score r)),
               s_experience_match = the (math_round (experience_match r)),
               s_domain_match = the (math_round (domain_match r)),
               s_seniority_fit = the (math_round (seniority_fit r)),
               s_reasoning = (case reasoning r of Text t \<Rightarrow> Some t | _ \<Rightarrow> None),
               s_scored_at = clock orc (clock_reads st), s_model_used = MODEL\<rparr>]\<rparr>)"
proof -
  from st obtain ov rl ex dm sn where m:
    "math_round (overall_score r) = Some ov" "math_round (relevance_score r) = Some rl"
    "math_round (experience_match r) = Some ex" "math_round (domain_match r) = Some dm"
    "math_round (seniority_fit r) = Some sn" and b: "reasoning r \<noteq> Unbindable"
    by (auto simp: storable_def)
  show ?thesis
    unfolding scoreJob_def acc sum.case
    by (subst upsertScore_stores[where ov = ov and rl = rl and ex = ex and dm = dm and sn = sn])
       (use m b fk in simp_all)
qed

lemma scoreJob_scored:
  assumes ok: "scored_ok judge" and fk: "c_id job \<in> set (map c_id (jobs st))"
  shows "fst (scoreJob orc judge st job) = Inr ()"
    and "set (map s_job_id (job_scores (snd (scoreJob orc judge st job))))
         = insert (c_id job) (set (map s_job_id (job_scores st)))"
proof -
  from ok obtain r where acc: "withRetry (\<lambda>k. judge_once (judge k)) 3 = Inr r" and st: "storable r"
    by (auto simp: scored_ok_def split: sum.splits)
  note e = scoreJob_stores[OF acc st fk, of orc]
  show "fst (scoreJob orc judge st job) = Inr ()" unfolding e by simp
  show "set (map s_job_id (job_scores (snd (scoreJob orc judge st job))))
         = insert (c_id job) (set (map s_job_id (job_scores st)))"
    unfolding e by auto
qed

lemma upt_Suc_shift: "[0..<Suc m] = 0 # map Suc [0..<m]"
  by (simp add: upt_conv_Cons map_Suc_upt del: upt_Suc)

lemma count_shift:
  "length (filter P [0..<Suc m])
   = (if P 0 then 1 else 0) + length (filter (\<lambda>i. P (Suc i)) [0..<m])"
  unfolding upt_Suc_shift by (simp add: filter_map comp_def)

lemma ids_shift:
  "{f ((x # xs) ! i) | i. i < Suc (length xs) \<and> P i}
   = (if P 0 then {f x} else {}) \<union> {f (xs ! i) | i. i < length xs \<and> P (Suc i)}"
proof -
  have "(\<exists>i. y = f ((x # xs) ! i) \<and> i < Suc (length xs) \<and> P i)
        = ((P 0 \<and> y = f x) \<or> (\<exists>i. y = f (xs ! i) \<and> i < length xs \<and> P (Suc i)))" for y
  proof
    assume "\<exists>i. y = f ((x # xs) ! i) \<and> i < Suc (length xs) \<and> P i"
    then obtain i where i: "y = f ((x # xs) ! i)" "i < Suc (length xs)" "P i" by blast
    show "(P 0 \<and> y = f x) \<or> (\<exists>i. y = f (xs ! i) \<and> i < length xs \<and> P (Suc i))"
    proof (cases i)
      case 0
      with i show ?thesis by simp
    next
      case (Suc j)
      with i show ?thesis by auto
    qed
  next
    assume "(P 0 \<and> y = f x) \<or> (\<exists>i. y = f (xs ! i) \<and> i < length xs \<and> P (Suc i))"
    then show "\<exists>i. y = f ((x # xs) ! i) \<and> i < Suc (length xs) \<and> P i"
    proof
      assume "P 0 \<and> y = f x"
      then show ?thesis by (intro exI[of _ 0]) simp
    next
      assume "\<exists>i. y = f (xs ! i) \<and> i < length xs \<and> P (Suc i)"
      then obtain i where "y = f (xs ! i)" "i < length xs" "P (Suc i)" by blast
      then show ?thesis by (intro exI[of _ "Suc i"]) simp
    qed
  qed
  then show ?thesis by auto
qed

lemma score_all_spec:
  assumes "\<forall>j\<in>set batch. c_id j \<in> set (map c_id (jobs st))"
  shows "fst (score_all orc judge st batch k n)
         = n + length (filter (\<lambda>i. scored_ok (judge (k + i))) [0..<length batch])
    \<and> set (map s_job_id (job_scores (snd (score_all orc judge st batch k n))))
       = set (map s_job_id (job_scores st))
         \<union> {c_id (batch ! i) | i. i < length batch \<and> scored_ok (judge (k + i))}"
  using assms
proof (induction batch arbitrary: st k n)
  case Nil
  show ?case by simp
next
  case (Cons job rest)
  obtain res st1 where s: "scoreJob orc (judge k) st job = (res, st1)"
    by (cases "scoreJob orc (judge k) st job")
  have jobs1: "jobs st1 = jobs st" using scoreJob_jobs[of orc "judge k" st job] s by simp
  have fk: "c_id job \<in> set (map c_id (jobs st))" using Cons.prems by simp
  have rest: "\<forall>j\<in>set rest. c_id j \<in> set (map c_id (jobs st1))"
    using Cons.prems jobs1 by simp
  note cnt = count_shift[of "\<lambda>i. scored_ok (judge (k + i))" "length rest"]
  note ids = ids_shift[of c_id job rest "\<lambda>i. scored_ok (judge (k + i))"]
  show ?case
  proof (cases "scored_ok (judge k)")
    case True
    have r: "res = Inr ()" using scoreJob_scored(1)[OF True fk, of orc] s by simp
    have i1: "set (map s_job_id (job_scores st1))
              = insert (c_id job) (set (map s_job_id (job_scores st)))"
      using scoreJob_scored(2)[OF True fk, of orc] s by simp
    show ?thesis
      using Cons.IH[OF rest, of "Suc k" "Suc n"] True i1
      by (simp add: s r cnt ids del: upt_Suc)
  next
    case False
    obtain e where r: "res = Inl e" using scoreJob_failed(1)[OF False, of orc st job] s
      by (cases res) auto
    have i1: "job_scores st1 = job_scores st"
      using scoreJob_failed(2)[OF False, of orc st job] s by simp
    show ?thesis
      using Cons.IH[OF rest, of "Suc k" n] False
      by (simp add: s r cnt ids i1 del: upt_Suc)
  qed
qed

lemma getUnscoredJobs_subset:
  "set (getUnscoredJobs st limit)
   \<subseteq> {j \<in> set (jobs st). c_id j \<notin> set (map s_job_id (job_scores st))}"
proof -
  have "set (sql_limit limit xs) \<subseteq> set xs" for xs :: "'a JobRow list"
    by (auto simp: sql_limit_def dest: in_set_takeD)
  then show ?thesis unfolding getUnscoredJobs_def by fastforce
qed

lemma getUnscoredJobs_length: "0 \<le> limit \<Longrightarrow> length (getUnscoredJobs st limit) \<le> nat limit"
  by (simp add: getUnscoredJobs_def sql_limit_def)

lemma getUnscoredJobs_distinct:
  "distinct (map c_id (jobs st)) \<Longrightarrow> distinct (map c_id (getUnscoredJobs st limit))"
  by (simp add: getUnscoredJobs_def sql_limit_def distinct_map_filter take_map[symmetric])

text \<open>
  Claim C7.  With a judge credential configured and a limit that is not negative,
  \<open>scoreUnscored\<close> takes a batch of at most \<open>limit\<close> jobs and always returns a count,
  never an error: the number of jobs of the batch that were scored, itself at most
  \<open>limit\<close>.  A job of the batch has a score row afterwards exactly when it was scored,
  wherever it stands in the batch; a job whose three tries all fail is not scored, so it
  is not counted and gets no row, and the jobs after it are still tried.
\<close>

theorem scoreUnscored_partial_success:
  assumes lim: "0 \<le> limit" and key: "truthy apiKey" and ids: "distinct (map c_id (jobs st))"
  shows "length (getUnscoredJobs st limit) \<le> nat limit
    \<and> fst (scoreUnscored orc apiKey judge st limit)
       = Inr (length (filter (\<lambda>k. scored_ok (judge k)) [0..<length (getUnscoredJobs st limit)]))
    \<and> length (filter (\<lambda>k. scored_ok (judge k)) [0..<length (getUnscoredJobs st limit)]) \<le> nat limit
    \<and> set (map s_job_id (job_scores (snd (scoreUnscored orc apiKey judge st limit))))
       = set (map s_job_id (job_scores st))
         \<union> {c_id (getUnscoredJobs st limit ! k) | k.
              k < length (getUnscoredJobs st limit) \<and> scored_ok (judge k)}
    \<and> (\<forall>k<length (getUnscoredJobs st limit).
          (c_id (getUnscoredJobs st limit ! k)
             \<in> set (map s_job_id (job_scores (snd (scoreUnscored orc apiKey judge st limit)))))
          = scored_ok (judge k))
    \<and> (\<forall>k. exhausted (judge k) \<longrightarrow> \<not> scored_ok (judge k))"
proof -
  let ?batch = "getUnscoredJobs st limit"
  let ?R = "scoreUnscored orc apiKey judge st limit"
  have len: "length ?batch \<le> nat limit" by (rule getUnscoredJobs_length[OF lim])
  have sub: "\<forall>j\<in>set ?batch. c_id j \<in> set (map c_id (jobs st))"
    using getUnscoredJobs_subset[of st limit] by auto
  have un: "\<forall>j\<in>set ?batch. c_id j \<notin> set (map s_job_id (job_scores st))"
    using getUnscoredJobs_subset[of st limit] by auto
  have dist: "distinct (map c_id ?batch)" by (rule getUnscoredJobs_distinct[OF ids])
  have R: "?R = (Inr (fst (score_all orc judge st ?batch 0 0)), snd (score_all orc judge st ?batch 0 0))"
    using key by (simp add: scoreUnscored_def split: prod.split)
  note spec = score_all_spec[OF sub, of orc judge 0 0]
  have cnt: "fst ?R = Inr (length (filter (\<lambda>k. scored_ok (judge k)) [0..<length ?batch]))"
    unfolding R using spec by simp
  have le: "length (filter (\<lambda>k. scored_ok (judge k)) [0..<length ?batch]) \<le> nat limit"
    using len length_filter_le[of "\<lambda>k. scored_ok (judge k)" "[0..<length ?batch]"] by simp
  have set_eq: "set (map s_job_id (job_scores (snd ?R)))
       = set (map s_job_id (job_scores st))
         \<union> {c_id (?batch ! k) | k. k < length ?batch \<and> scored_ok (judge k)}"
    unfolding R using spec by simp
  have mem: "(c_id (?batch ! k) \<in> set (map s_job_id (job_scores (snd ?R)))) = scored_ok (judge k)"
    if k: "k < length ?batch" for k
  proof
    assume "c_id (?batch ! k) \<in> set (map s_job_id (job_scores (snd ?R)))"
    moreover have "c_id (?batch ! k) \<notin> set (map s_job_id (job_scores st))"
      using un k by simp
    ultimately obtain i where i: "i < length ?batch" "scored_ok (judge i)"
        "c_id (?batch ! k) = c_id (?batch ! i)"
      unfolding set_eq by blast
    have "map c_id ?batch ! k = map c_id ?batch ! i" using i k by simp
    moreover have "k < length (map c_id ?batch)" "i < length (map c_id ?batch)" using i k by simp_all
    ultimately have "k = i" using dist nth_eq_iff_index_eq by blast
    with i show "scored_ok (judge k)" by simp
  next
    assume "scored_ok (judge k)"
    then show "c_id (?batch ! k) \<in> set (map s_job_id (job_scores (snd ?R)))"
      unfolding set_eq using k by blast
  qed
  show ?thesis
    using len cnt le set_eq mem exhausted_not_scored by blast
qed

theorem scoreUnscored_partial_success_witness:
  "(0::int) \<le> 2 \<and> truthy (Val (js ''sk-test''))
   \<and> distinct (map c_id (jobs demo_store_three))
   \<and> map c_id (getUnscoredJobs demo_store_three 2) = [js ''id-0'', js ''id-1'']
   \<and> exhausted (demo_judge 0) \<and> \<not> scored_ok (demo_judge 0) \<and> scored_ok (demo_judge 1)
   \<and> fst (scoreUnscored demo_env (Val (js ''sk-test'')) demo_judge demo_store_three 2) = Inr 1
   \<and> js ''id-0'' \<notin> set (map s_job_id (job_scores
        (snd (scoreUnscored demo_env (Val (js ''sk-test'')) demo_judge demo_store_three 2))))
   \<and> js ''id-1'' \<in> set (map s_job_id (job_scores
        (snd (scoreUnscored demo_env (Val (js ''sk-test'')) demo_judge demo_store_three 2))))"
proof -
  let ?batch = "getUnscoredJobs demo_store_three 2"
  let ?R = "scoreUnscored demo_env (Val (js ''sk-test'')) demo_judge demo_store_three 2"
  have h1: "(0::int) \<le> 2" by simp
  have h2: "truthy (Val (js ''sk-test''))" by (simp add: js_def)
  have h3: "distinct (map c_id (jobs demo_store_three))" by code_simp
  have b: "map c_id ?batch = [js ''id-0'', js ''id-1'']" by code_simp
  have e0: "exhausted (demo_judge 0)" by code_simp
  have s0: "\<not> scored_ok (demo_judge 0)" by code_simp
  have s1: "scored_ok (demo_judge 1)" by code_simp
  have len: "length ?batch = 2" using arg_cong[OF b, of length] by simp
  have i0: "c_id (?batch ! 0) = js ''id-0''" using arg_cong[OF b, of "\<lambda>xs. xs ! 0"] len by simp
  have i1: "c_id (?batch ! 1) = js ''id-1''" using arg_cong[OF b, of "\<lambda>xs. xs ! 1"] len by simp
  note T = scoreUnscored_partial_success[OF h1 h2 h3, of demo_env demo_judge]
  have "fst ?R = Inr (length (filter (\<lambda>k. scored_ok (demo_judge k)) [0..<length ?batch]))"
    using T by blast
  then have a1: "fst ?R = Inr 1"
    unfolding len using s0 s1 by (simp add: upt_conv_Cons)
  have m: "\<forall>k<length ?batch. (c_id (?batch ! k) \<in> set (map s_job_id (job_scores (snd ?R))))
                              = scored_ok (demo_judge k)"
    using T by blast
  have a2: "js ''id-0'' \<notin> set (map s_job_id (job_scores (snd ?R)))"
    using m[rule_format, of 0] len s0 i0 by simp
  have a3: "js ''id-1'' \<in> set (map s_job_id (job_scores (snd ?R)))"
    using m[rule_format, of 1] len s1 i1 by simp
  show ?thesis using h1 h2 h3 b e0 s0 s1 a1 a2 a3 by blast
qed

lemma upsertScore_Inr:
  "fst (upsertScore orc st a) = Inr ()
   \<Longrightarrow> reasoning' a \<noteq> Unbindable \<and> overallScore a \<noteq> None \<and> relevanceScore a \<noteq> None
       \<and> experienceMatch a \<noteq> None \<and> domainMatch a \<noteq> None \<and> seniorityFit a \<noteq> None
       \<and> jobId a \<in> set (map c_id (jobs st))"
  by (auto simp: upsertScore_def Let_def split: option.splits if_splits)

lemma math_round_Num: "math_round (Num x) = Some \<lfloor>x + 1 / 2\<rfloor>"
  by (simp add: math_round_def)

text \<open>
  Claim C8.  A reply that \<open>withRetry\<close> accepts has a numeric \<open>overall_score\<close>.  When
  \<open>scoreJob\<close> stores it, the row holds for each of the five scores what \<open>Math.round\<close>
  makes of the judge's value, and when all five are numbers (and the reasoning can be
  bound, and the job exists) the row is stored and holds each number rounded to the
  nearest integer.  The overall score is the judge's own, rounded, whatever the four
  sub-scores are.
\<close>

theorem scoreJob_persists_rounded:
  assumes acc: "withRetry (\<lambda>k. judge_once (judge k)) 3 = Inr r"
  shows "(\<exists>x. overall_score r = Num x)
    \<and> (fst (scoreJob orc judge st job) = Inr () \<longrightarrow>
         (\<exists>ov rl ex dm sn.
            math_round (overall_score r) = Some ov \<and> math_round (relevance_score r) = Some rl
            \<and> math_round (experience_match r) = Some ex \<and> math_round (domain_match r) = Some dm
            \<and> math_round (seniority_fit r) = Some sn
            \<and> job_scores (snd (scoreJob orc judge st job))
               = filter (\<lambda>s. s_job_id s \<noteq> c_id job) (job_scores st)
                 @ [\<lparr>s_job_id = c_id job, s_overall_score = ov, s_relevance_score = rl,
                     s_experience_match = ex, s_domain_match = dm, s_seniority_fit = sn,
                     s_reasoning = (case reasoning r of Text t \<Rightarrow> Some t | _ \<Rightarrow> None),
                     s_scored_at = clock orc (clock_reads st), s_model_used = MODEL\<rparr>]))
    \<and> (\<forall>ov rl ex dm sn.
          overall_score r = Num ov \<and> relevance_score r = Num rl \<and> experience_match r = Num ex
          \<and> domain_match r = Num dm \<and> seniority_fit r = Num sn \<and> reasoning r \<noteq> Unbindable
          \<and> c_id job \<in> set (map c_id (jobs st))
          \<longrightarrow> fst (scoreJob orc judge st job) = Inr ()
              \<and> job_scores (snd (scoreJob orc judge st job))
                 = filter (\<lambda>s. s_job_id s \<noteq> c_id job) (job_scores st)
                   @ [\<lparr>s_job_id = c_id job, s_overall_score = \<lfloor>ov + 1 / 2\<rfloor>,
                       s_relevance_score = \<lfloor>rl + 1 / 2\<rfloor>, s_experience_match = \<lfloor>ex + 1 / 2\<rfloor>,
                       s_domain_match = \<lfloor>dm + 1 / 2\<rfloor>, s_seniority_fit = \<lfloor>sn + 1 / 2\<rfloor>,
                       s_reasoning = (case reasoning r of Text t \<Rightarrow> Some t | _ \<Rightarrow> None),
                       s_scored_at = clock orc (clock_reads st), s_model_used = MODEL\<rparr>])"
proof -
  have p1: "\<exists>x. overall_score r = Num x" by (rule accepted_numeric[OF acc])
  have p2: "\<exists>ov rl ex dm sn.
            math_round (overall_score r) = Some ov \<and> math_round (relevance_score r) = Some rl
            \<and> math_round (experience_match r) = Some ex \<and> math_round (domain_match r) = Some dm
            \<and> math_round (seniority_fit r) = Some sn
            \<and> job_scores (snd (scoreJob orc judge st job))
               = filter (\<lambda>s. s_job_id s \<noteq> c_id job) (job_scores st)
                 @ [\<lparr>s_job_id = c_id job, s_overall_score = ov, s_relevance_score = rl,
                     s_experience_match = ex, s_domain_match = dm, s_seniority_fit = sn,
                     s_reasoning = (case reasoning r of Text t \<Rightarrow> Some t | _ \<Rightarrow> None),
                     s_scored_at = clock orc (clock_reads st), s_model_used = MODEL\<rparr>]"
    if ok: "fst (scoreJob orc judge st job) = Inr ()"
  proof -
    from ok have u: "fst (upsertScore orc st
            \<lparr>jobId = c_id job, overallScore = math_round (overall_score r),
             relevanceScore = math_round (relevance_score r),
             experienceMatch = math_round (experience_match r),
             domainMatch = math_round (domain_match r),
             seniorityFit = math_round (seniority_fit r),
             reasoning' = reasoning r, modelUsed = MODEL\<rparr>) = Inr ()"
      by (simp add: scoreJob_def acc)
    from upsertScore_Inr[OF u] have s: "storable r" and fk: "c_id job \<in> set (map c_id (jobs st))"
      by (simp_all add: storable_def)
    from s obtain ov rl ex dm sn where m:
      "math_round (overall_score r) = Some ov" "math_round (relevance_score r) = Some rl"
      "math_round (experience_match r) = Some ex" "math_round (domain_match r) = Some dm"
      "math_round (seniority_fit r) = Some sn"
      by (auto simp: storable_def)
    show ?thesis
      using m unfolding scoreJob_stores[OF acc s fk] by simp
  qed
  have p3: "fst (scoreJob orc judge st job) = Inr ()
              \<and> job_scores (snd (scoreJob orc judge st job))
                 = filter (\<lambda>s. s_job_id s \<noteq> c_id job) (job_scores st)
                   @ [\<lparr>s_job_id = c_id job, s_overall_score = \<lfloor>ov + 1 / 2\<rfloor>,
                       s_relevance_score = \<lfloor>rl + 1 / 2\<rfloor>, s_experience_match = \<lfloor>ex + 1 / 2\<rfloor>,
                       s_domain_match = \<lfloor>dm + 1 / 2\<rfloor>, s_seniority_fit = \<lfloor>sn + 1 / 2\<rfloor>,
                       s_reasoning = (case reasoning r of Text t \<Rightarrow> Some t | _ \<Rightarrow> None),
                       s_scored_at = clock orc (clock_reads st), s_model_used = MODEL\<rparr>]"
    if n: "overall_score r = Num ov" "relevance_score r = Num rl" "experience_match r = Num ex"
      "domain_match r = Num dm" "seniority_fit r = Num sn" and b: "reasoning r \<noteq> Unbindable"
      and fk: "c_id job \<in> set (map c_id (jobs st))" for ov rl ex dm sn
  proof -
    have s: "storable r" using n b by (simp add: storable_def math_round_Num)
    show ?thesis unfolding scoreJob_stores[OF acc s fk] using n by (simp add: math_round_Num)
  qed
  show ?thesis using p1 p2 p3 by blast
qed

theorem scoreJob_persists_rounded_witness:
  "withRetry (\<lambda>k. judge_once (demo_judge 1 k)) 3 = Inr demo_reply
   \<and> fst (scoreJob demo_env (demo_judge 1) demo_store_three
            (new_row (js ''id-1'') (js ''jobstash'')
               (demo_job (js ''41'') (js ''BD Lead'') None) (js ''t1''))) = Inr ()
   \<and> job_scores (snd (scoreJob demo_env (demo_judge 1) demo_store_three
            (new_row (js ''id-1'') (js ''jobstash'')
               (demo_job (js ''41'') (js ''BD Lead'') None) (js ''t1''))))
      = [\<lparr>s_job_id = js ''id-1'', s_overall_score = 91, s_relevance_score = 10,
          s_experience_match = 10, s_domain_match = 10, s_seniority_fit = 10,
          s_reasoning = Some (js ''ok''), s_scored_at = js ''t3'', s_model_used = MODEL\<rparr>]"
proof -
  let ?job = "new_row (js ''id-1'') (js ''jobstash'')
               (demo_job (js ''41'') (js ''BD Lead'') None) (js ''t1'')"
  have acc: "withRetry (\<lambda>k. judge_once (demo_judge 1 k)) 3 = Inr demo_reply" by code_simp
  have n: "overall_score demo_reply = Num (181 / 2) \<and> relevance_score demo_reply = Num 10
           \<and> experience_match demo_reply = Num (41 / 4) \<and> domain_match demo_reply = Num 10
           \<and> seniority_fit demo_reply = Num (19 / 2) \<and> reasoning demo_reply \<noteq> Unbindable
           \<and> c_id ?job \<in> set (map c_id (jobs demo_store_three))"
    by (simp add: demo_reply_def demo_store_three_def empty_store_def)
  have v: "\<lfloor>(181::rat) / 2 + 1 / 2\<rfloor> = 91" "\<lfloor>(10::rat) + 1 / 2\<rfloor> = 10"
    "\<lfloor>(41::rat) / 4 + 1 / 2\<rfloor> = 10" "\<lfloor>(19::rat) / 2 + 1 / 2\<rfloor> = 10"
    by code_simp+
  have c: "clock demo_env (clock_reads demo_store_three) = js ''t3''"
    "job_scores demo_store_three = []" "c_id ?job = js ''id-1''"
    "(case reasoning demo_reply of Text t \<Rightarrow> Some t | _ \<Rightarrow> None) = Some (js ''ok'')"
    by (simp_all add: demo_env_def demo_store_three_def empty_store_def js_def demo_reply_def)
  from scoreJob_persists_rounded[OF acc, of demo_env demo_store_three ?job] n
  have "fst (scoreJob demo_env (demo_judge 1) demo_store_three ?job) = Inr ()
      \<and> job_scores (snd (scoreJob demo_env (demo_judge 1) demo_store_three ?job))
         = filter (\<lambda>s. s_job_id s \<noteq> c_id ?job) (job_scores demo_store_three)
           @ [\<lparr>s_job_id = c_id ?job, s_overall_score = \<lfloor>(181::rat) / 2 + 1 / 2\<rfloor>,
               s_relevance_score = \<lfloor>(10::rat) + 1 / 2\<rfloor>,
               s_experience_match = \<lfloor>(41::rat) / 4 + 1 / 2\<rfloor>,
               s_domain_match = \<lfloor>(10::rat) + 1 / 2\<rfloor>,
               s_seniority_fit = \<lfloor>(19::rat) / 2 + 1 / 2\<rfloor>,
               s_reasoning = (case reasoning demo_reply of Text t \<Rightarrow> Some t | _ \<Rightarrow> None),
               s_scored_at = clock demo_env (clock_reads demo_store_three),
               s_model_used = MODEL\<rparr>]"
    by blast
  then show ?thesis unfolding v c using acc by simp
qed

section \<open>The JobStash adapter: properties\<close>

lemma to_raw_rawData: "to_raw toISO job = Inr raw \<Longrightarrow> rawData raw = Some job"
  by (auto simp: to_raw_def split: option.splits if_splits)

lemma to_raw_total: "\<forall>t. toISO t \<noteq> None \<Longrightarrow> \<exists>raw. to_raw toISO job = Inr raw"
proof -
  assume a: "\<forall>t. toISO t \<noteq> None"
  show ?thesis
  proof (cases "api_timestamp job")
    case None
    then show ?thesis by (simp add: to_raw_def)
  next
    case (Some t)
    from a have "toISO t \<noteq> None" by blast
    then obtain d where "toISO t = Some d" by (cases "toISO t") auto
    with Some show ?thesis by (simp add: to_raw_def)
  qed
qed

lemma process_page_spec:
  "process_page toISO items (kept, cnt) = Inr (kept', cnt')
   \<Longrightarrow> skippedSeniority cnt' = skippedSeniority cnt + length (filter below_seniority items)
     \<and> skippedTitle cnt'
        = skippedTitle cnt
          + length (filter (\<lambda>j. \<not> below_seniority j \<and> isExcludedTitle (api_title j)) items)
     \<and> skippedLocation cnt'
        = skippedLocation cnt
          + length (filter (\<lambda>j. \<not> below_seniority j \<and> \<not> isExcludedTitle (api_title j)
                                \<and> \<not> isLocationValid j) items)
     \<and> map rawData kept' = map rawData kept @ map Some (filter passes items)"
proof (induction items arbitrary: kept cnt)
  case Nil
  then show ?case by simp
next
  case (Cons job rest)
  show ?case
  proof (cases "below_seniority job")
    case True
    with Cons.prems have "process_page toISO rest
        (kept, cnt\<lparr>skippedSeniority := Suc (skippedSeniority cnt)\<rparr>) = Inr (kept', cnt')" by simp
    from Cons.IH[OF this] True show ?thesis by (simp add: passes_def)
  next
    case b: False
    show ?thesis
    proof (cases "isExcludedTitle (api_title job)")
      case True
      with b Cons.prems have "process_page toISO rest
          (kept, cnt\<lparr>skippedTitle := Suc (skippedTitle cnt)\<rparr>) = Inr (kept', cnt')" by simp
      from Cons.IH[OF this] b True show ?thesis by (simp add: passes_def)
    next
      case t: False
      show ?thesis
      proof (cases "isLocationValid job")
        case False
        with b t Cons.prems have "process_page toISO rest
            (kept, cnt\<lparr>skippedLocation := Suc (skippedLocation cnt)\<rparr>) = Inr (kept', cnt')"
          by simp
        from Cons.IH[OF this] b t False show ?thesis by (simp add: passes_def)
      next
        case True
        with b t Cons.prems obtain raw where raw: "to_raw toISO job = Inr raw"
          and r: "process_page toISO rest (kept @ [raw], cnt) = Inr (kept', cnt')"
          by (cases "to_raw toISO job") auto
        from Cons.IH[OF r] b t True to_raw_rawData[OF raw] show ?thesis
          by (simp add: passes_def)
      qed
    qed
  qed
qed

lemma process_page_total:
  assumes "\<forall>t. toISO t \<noteq> None"
  shows "\<exists>r. process_page toISO items acc = Inr r"
proof (induction items arbitrary: acc)
  case Nil
  show ?case by simp
next
  case (Cons job rest)
  obtain kept cnt where acc: "acc = (kept, cnt)" by (cases acc)
  obtain raw where raw: "to_raw toISO job = Inr raw" using to_raw_total[OF assms] by blast
  show ?case unfolding acc using Cons.IH raw by simp
qed

lemma scrape_pages_spec:
  "scrape_pages fetch toISO page (kept, cnt) = Inr (kept', cnt')
   \<Longrightarrow> skippedSeniority cnt'
       = skippedSeniority cnt + length (filter below_seniority (fetched_from fetch page))
     \<and> skippedTitle cnt'
        = skippedTitle cnt
          + length (filter (\<lambda>j. \<not> below_seniority j \<and> isExcludedTitle (api_title j))
                      (fetched_from fetch page))
     \<and> skippedLocation cnt'
        = skippedLocation cnt
          + length (filter (\<lambda>j. \<not> below_seniority j \<and> \<not> isExcludedTitle (api_title j)
                                \<and> \<not> isLocationValid j) (fetched_from fetch page))
     \<and> map rawData kept' = map rawData kept @ map Some (filter passes (fetched_from fetch page))"
proof (induction fetch toISO page "(kept, cnt)" arbitrary: kept cnt rule: scrape_pages.induct)
  case (1 fetch toISO page)
  note sp = scrape_pages.simps[of fetch toISO page "(kept, cnt)"]
  note ff = fetched_from.simps[of fetch page]
  show ?case
  proof (cases "page \<le> MAX_PAGES")
    case False
    with "1.prems" show ?thesis by (simp add: sp ff)
  next
    case le: True
    show ?thesis
    proof (cases "fetch page")
      case (Failed e)
      with le "1.prems" show ?thesis by (simp add: sp)
    next
      case (NotOk status)
      with le "1.prems" show ?thesis by (simp add: sp ff)
    next
      case (Page items)
      show ?thesis
      proof (cases "items = []")
        case True
        with le Page "1.prems" show ?thesis by (simp add: sp ff)
      next
        case ne: False
        from le Page ne "1.prems" obtain k1 c1 where
          p: "process_page toISO items (kept, cnt) = Inr (k1, c1)"
          and rest: "(if length items < PAGE_LIMIT then Inr (k1, c1)
                      else scrape_pages fetch toISO (Suc page) (k1, c1)) = Inr (kept', cnt')"
          by (cases "process_page toISO items (kept, cnt)") (auto simp: sp)
        note ps = process_page_spec[OF p]
        show ?thesis
        proof (cases "length items < PAGE_LIMIT")
          case True
          with rest have "k1 = kept'" "c1 = cnt'" by simp_all
          moreover have "fetched_from fetch page = items"
            using le Page ne True by (subst fetched_from.simps) simp
          ultimately show ?thesis using ps by simp
        next
          case False
          with rest have r: "scrape_pages fetch toISO (Suc page) (k1, c1) = Inr (kept', cnt')"
            by simp
          have f: "fetched_from fetch page = items @ fetched_from fetch (Suc page)"
            using le Page ne False by (subst fetched_from.simps) simp
          note ih = "1.hyps"[OF le Page ne p False r]
          have a1: "skippedSeniority cnt'
              = skippedSeniority cnt + length (filter below_seniority (items @ fetched_from fetch (Suc page)))"
            using ih ps by (simp only: filter_append length_append)
          have a2: "skippedTitle cnt'
              = skippedTitle cnt
                + length (filter (\<lambda>j. \<not> below_seniority j \<and> isExcludedTitle (api_title j))
                    (items @ fetched_from fetch (Suc page)))"
            using ih ps by (simp only: filter_append length_append)
          have a3: "skippedLocation cnt'
              = skippedLocation cnt
                + length (filter (\<lambda>j. \<not> below_seniority j \<and> \<not> isExcludedTitle (api_title j)
                                \<and> \<not> isLocationValid j) (items @ fetched_from fetch (Suc page)))"
            using ih ps by (simp only: filter_append length_append)
          have a4: "map rawData kept'
              = map rawData kept @ map Some (filter passes (items @ fetched_from fetch (Suc page)))"
            using ih ps by (simp only: filter_append map_append append_assoc)
          show ?thesis unfolding f using a1 a2 a3 a4 by blast
        qed
      qed
    qed
  qed
qed

lemma scrape_pages_total:
  assumes nf: "\<forall>p e. fetch p \<noteq> Failed e" and iso: "\<forall>t. toISO t \<noteq> None"
  shows "\<exists>r. scrape_pages fetch toISO page acc = Inr r"
  using nf iso
proof (induction fetch toISO page acc rule: scrape_pages.induct)
  case (1 fetch toISO page acc)
  note sp = scrape_pages.simps[of fetch toISO page acc]
  show ?case
  proof (cases "page \<le> MAX_PAGES")
    case False
    then show ?thesis by (simp add: sp)
  next
    case le: True
    show ?thesis
    proof (cases "fetch page")
      case (Failed e)
      with "1.prems"(1) show ?thesis by blast
    next
      case (NotOk status)
      with le show ?thesis by (simp add: sp)
    next
      case (Page items)
      show ?thesis
      proof (cases "items = []")
        case True
        with le Page show ?thesis by (simp add: sp)
      next
        case ne: False
        obtain acc' where p: "process_page toISO items acc = Inr acc'"
          using process_page_total "1.prems"(2) by blast
        show ?thesis
        proof (cases "length items < PAGE_LIMIT")
          case True
          with le Page ne p show ?thesis by (simp add: sp)
        next
          case False
          from "1.IH"[OF le Page ne p False "1.prems"] le Page ne p False
          show ?thesis by (simp add: sp)
        qed
      qed
    qed
  qed
qed

lemma below_seniority_parse:
  "api_seniority job = Some s \<Longrightarrow> s \<noteq> [] \<Longrightarrow> parseInt10 s = Some n \<Longrightarrow> n < 2
   \<Longrightarrow> below_seniority job"
  by (simp add: below_seniority_def MIN_SENIORITY_def)

lemma dropped_not_kept:
  assumes "map rawData kept = map Some (filter passes all)" and "below_seniority j"
  shows "Some j \<notin> set (map rawData kept)"
proof
  assume "Some j \<in> set (map rawData kept)"
  then have "Some j \<in> Some ` set (filter passes all)" using assms(1) by simp
  then have "passes j" by auto
  with assms(2) show False by (simp add: passes_def)
qed

text \<open>
  Claim C9. In the JobStash adapter the seniority tier comes first. Whenever the scrape
  returns, its seniority counter is the number of fetched jobs whose code is below the
  threshold; the title counter counts only jobs that passed the seniority tier, the
  location counter only jobs that passed both, so the three counters are distinct and a
  job dropped for its seniority is never tested against the shared filters; the jobs
  kept are exactly those that pass all three, in fetch order, and no job below the
  threshold is among them. A job whose seniority text is non-empty and parses to a number
  below 2 is below the threshold. The scrape does return when no page fetch throws and
  every timestamp converts.
\<close>

theorem JobStash_seniority_tier:
  "((\<forall>p e. fetch p \<noteq> Failed e) \<and> (\<forall>t. toISO t \<noteq> None)
      \<longrightarrow> (\<exists>r. JobStashAdapter_scrape fetch toISO = Inr r))
   \<and> (\<forall>kept cnt. JobStashAdapter_scrape fetch toISO = Inr (kept, cnt) \<longrightarrow>
         skippedSeniority cnt = length (filter below_seniority (fetched_from fetch 1))
       \<and> skippedTitle cnt
          = length (filter (\<lambda>j. \<not> below_seniority j \<and> isExcludedTitle (api_title j))
                      (fetched_from fetch 1))
       \<and> skippedLocation cnt
          = length (filter (\<lambda>j. \<not> below_seniority j \<and> \<not> isExcludedTitle (api_title j)
                                \<and> \<not> isLocationValid j) (fetched_from fetch 1))
       \<and> map rawData kept = map Some (filter passes (fetched_from fetch 1))
       \<and> (\<forall>j\<in>set (fetched_from fetch 1). below_seniority j \<longrightarrow> Some j \<notin> set (map rawData kept)))
   \<and> (\<forall>job s n. api_seniority job = Some s \<and> s \<noteq> [] \<and> parseInt10 s = Some n \<and> n < 2
         \<longrightarrow> below_seniority job)"
proof -
  have total: "\<exists>r. JobStashAdapter_scrape fetch toISO = Inr r"
    if "\<forall>p e. fetch p \<noteq> Failed e" "\<forall>t. toISO t \<noteq> None"
    unfolding JobStashAdapter_scrape_def by (rule scrape_pages_total[OF that])
  have spec: "skippedSeniority cnt = length (filter below_seniority (fetched_from fetch 1))
       \<and> skippedTitle cnt
          = length (filter (\<lambda>j. \<not> below_seniority j \<and> isExcludedTitle (api_title j))
                      (fetched_from fetch 1))
       \<and> skippedLocation cnt
          = length (filter (\<lambda>j. \<not> below_seniority j \<and> \<not> isExcludedTitle (api_title j)
                                \<and> \<not> isLocationValid j) (fetched_from fetch 1))
       \<and> map rawData kept = map Some (filter passes (fetched_from fetch 1))
       \<and> (\<forall>j\<in>set (fetched_from fetch 1). below_seniority j \<longrightarrow> Some j \<notin> set (map rawData kept))"
    if r: "JobStashAdapter_scrape fetch toISO = Inr (kept, cnt)" for kept cnt
  proof -
    have r': "scrape_pages fetch toISO 1
                ([], \<lparr>skippedSeniority = 0, skippedTitle = 0, skippedLocation = 0\<rparr>)
              = Inr (kept, cnt)"
      using r by (simp only: JobStashAdapter_scrape_def)
    note s = scrape_pages_spec[OF r']
    have c1: "skippedSeniority cnt = length (filter below_seniority (fetched_from fetch 1))"
      using s by simp
    have c2: "skippedTitle cnt
          = length (filter (\<lambda>j. \<not> below_seniority j \<and> isExcludedTitle (api_title j))
                      (fetched_from fetch 1))"
      using s by simp
    have c3: "skippedLocation cnt
          = length (filter (\<lambda>j. \<not> below_seniority j \<and> \<not> isExcludedTitle (api_title j)
                                \<and> \<not> isLocationValid j) (fetched_from fetch 1))"
      using s by simp
    have m: "map rawData kept = map Some (filter passes (fetched_from fetch 1))"
      using s by simp
    have d: "\<forall>j\<in>set (fetched_from fetch 1). below_seniority j \<longrightarrow> Some j \<notin> set (map rawData kept)"
      using dropped_not_kept[OF m] by blast
    show ?thesis using c1 c2 c3 m d by blast
  qed
  show ?thesis using total spec below_seniority_parse by blast
qed

theorem JobStash_seniority_tier_witness:
  "(case JobStashAdapter_scrape demo_fetch (\<lambda>t. Some []) of
      Inl e \<Rightarrow> False
    | Inr (kept, cnt) \<Rightarrow>
        map sourceId kept = [js ''a'', js ''e'']
        \<and> cnt = \<lparr>skippedSeniority = 1, skippedTitle = 1, skippedLocation = 1\<rparr>
        \<and> skippedSeniority cnt = length (filter below_seniority (fetched_from demo_fetch 1)))
   \<and> length (fetched_from demo_fetch 1) = 5
   \<and> map api_shortUUID (filter below_seniority (fetched_from demo_fetch 1)) = [Some (js ''b'')]
   \<and> api_seniority (demo_page ! 1) = Some (js ''1'') \<and> parseInt10 (js ''1'') = Some 1
   \<and> isExcludedTitle (api_title (demo_page ! 1)) \<and> \<not> isLocationValid (demo_page ! 1)
   \<and> below_seniority (demo_page ! 1)"
proof -
  let ?R = "JobStashAdapter_scrape demo_fetch (\<lambda>t. Some [])"
  have ev: "(case ?R of Inl e \<Rightarrow> False
             | Inr (kept, cnt) \<Rightarrow> map sourceId kept = [js ''a'', js ''e'']
                 \<and> cnt = \<lparr>skippedSeniority = 1, skippedTitle = 1, skippedLocation = 1\<rparr>)"
    by code_simp
  have f: "length (fetched_from demo_fetch 1) = 5
           \<and> map api_shortUUID (filter below_seniority (fetched_from demo_fetch 1)) = [Some (js ''b'')]"
    by code_simp
  have j: "api_seniority (demo_page ! 1) = Some (js ''1'') \<and> parseInt10 (js ''1'') = Some 1
           \<and> isExcludedTitle (api_title (demo_page ! 1)) \<and> \<not> isLocationValid (demo_page ! 1)"
    by code_simp
  have ne: "js ''1'' \<noteq> []" by (simp add: js_def)
  note T = JobStash_seniority_tier[of demo_fetch "\<lambda>t. Some []"]
  from ev obtain kept cnt where r: "?R = Inr (kept, cnt)"
    and k: "map sourceId kept = [js ''a'', js ''e'']"
    and c: "cnt = \<lparr>skippedSeniority = 1, skippedTitle = 1, skippedLocation = 1\<rparr>"
    by (cases ?R) auto
  have s: "skippedSeniority cnt = length (filter below_seniority (fetched_from demo_fetch 1))"
    using T r by blast
  have lt: "(1::int) < 2" by simp
  have "\<forall>job s n. api_seniority job = Some s \<and> s \<noteq> [] \<and> parseInt10 s = Some n \<and> n < 2
         \<longrightarrow> below_seniority job"
    using T by blast
  then have b: "below_seniority (demo_page ! 1)" using j ne lt by blast
  show ?thesis using r k c s f j b by simp
qed

end
